theory Spec2Isabelle
  imports Main "HOL-Library.Sublist"
begin

section \<open>Strings and characters\<close>

text \<open>
  A JavaScript string is a sequence of UTF-16 code units. The model uses \<^typ>\<open>string\<close>:
  one \<^typ>\<open>char\<close> stands for one code unit in the range 0..255, so the development
  covers every text whose code units are below 256. Within that range the character
  classes of the regular expressions of \<^verbatim>\<open>Markdown.Extra.js\<close> are the following.
\<close>

definition LF :: char where "LF = CHR 0x0A"
definition TAB :: char where "TAB = CHR 0x09"
definition STX :: char where "STX = CHR 0x02"
definition ETX :: char where "ETX = CHR 0x03"
definition NUL :: char where "NUL = CHR 0x00"
definition BSL :: char where "BSL = CHR 0x5C"

text \<open>\<^verbatim>\<open>\s\<close>: tab, line feed, vertical tab, form feed, carriage return, space, no-break space.\<close>

definition is_space :: "char \<Rightarrow> bool" where
  "is_space c = (c = CHR 0x09 \<or> c = CHR 0x0A \<or> c = CHR 0x0B \<or> c = CHR 0x0C \<or> c = CHR 0x0D
                 \<or> c = CHR 0x20 \<or> c = CHR 0xA0)"

text \<open>Line terminators: they delimit lines for \<^verbatim>\<open>^\<close> and \<^verbatim>\<open>$\<close> under the
  \<^verbatim>\<open>m\<close> flag, and \<^verbatim>\<open>.\<close> does not match them.\<close>

definition is_line_term :: "char \<Rightarrow> bool" where
  "is_line_term c = (c = CHR 0x0A \<or> c = CHR 0x0D)"

definition is_digit :: "char \<Rightarrow> bool" where
  "is_digit c = (48 \<le> (of_char c :: nat) \<and> (of_char c :: nat) \<le> 57)"

text \<open>Case folding of the \<^verbatim>\<open>i\<close> flag: only the ASCII letters have a second case
  that a pattern letter of this program can match.\<close>

definition to_lower :: "char \<Rightarrow> char" where
  "to_lower c =
     (if 65 \<le> (of_char c :: nat) \<and> (of_char c :: nat) \<le> 90
      then char_of (of_char c + (32::nat)) else c)"

section \<open>Regular expressions with backtracking\<close>

text \<open>
  The abstract syntax of the regular expressions that the program uses. \<open>Star\<close> is the
  greedy \<^verbatim>\<open>*\<close>, \<open>StarLazy\<close> is \<^verbatim>\<open>*?\<close>; \<open>Grp n\<close> is the \<open>n\<close>-th capturing
  group; \<open>Ahead\<close> and \<open>NotAhead\<close> are \<^verbatim>\<open>(?=...)\<close> and \<^verbatim>\<open>(?!...)\<close>; \<open>Bos\<close> and
  \<open>Eos\<close> are \<^verbatim>\<open>^\<close> and \<^verbatim>\<open>$\<close> without the \<^verbatim>\<open>m\<close> flag, \<open>Bol\<close> and \<open>Eol\<close> with it.
\<close>

datatype re =
    Chr char
  | Cls "char \<Rightarrow> bool"
  | Eps
  | Seq re re
  | Alt re re
  | Star re
  | StarLazy re
  | Grp nat re
  | Ahead re
  | NotAhead re
  | Bos
  | Eos
  | Bol
  | Eol

text \<open>
  A matcher state: the code unit before the current position (\<open>None\<close> at the start of the
  input), the input from the current position on, and the captures made so far.
\<close>

datatype mstate = MState (prev: "char option") (rest: string) (caps: "nat \<rightharpoonup> string")

text \<open>
  \<open>ms r st\<close> lists the states in which a match of \<open>r\<close> started in \<open>st\<close> can end, in the
  order in which a backtracking matcher tries them. An iteration of a star that consumes
  nothing is rejected, as ECMAScript requires. No capturing group of this program stands
  inside a repeated quantifier, so captures are never reset.
\<close>

function ms :: "re \<Rightarrow> mstate \<Rightarrow> mstate list" where
  "ms (Chr c) st =
     (case rest st of [] \<Rightarrow> []
      | x # xs \<Rightarrow> if x = c then [MState (Some x) xs (caps st)] else [])"
| "ms (Cls P) st =
     (case rest st of [] \<Rightarrow> []
      | x # xs \<Rightarrow> if P x then [MState (Some x) xs (caps st)] else [])"
| "ms Eps st = [st]"
| "ms (Seq a b) st = concat (map (ms b) (ms a st))"
| "ms (Alt a b) st = ms a st @ ms b st"
| "ms (Star r) st =
     concat (map (\<lambda>st'. if length (rest st') < length (rest st) then ms (Star r) st' else [])
                 (ms r st)) @ [st]"
| "ms (StarLazy r) st =
     st # concat (map (\<lambda>st'. if length (rest st') < length (rest st)
                               then ms (StarLazy r) st' else [])
                      (ms r st))"
| "ms (Grp n r) st =
     map (\<lambda>st'. MState (prev st') (rest st')
                  ((caps st')(n \<mapsto> take (length (rest st) - length (rest st')) (rest st))))
         (ms r st)"
| "ms (Ahead r) st =
     (case ms r st of [] \<Rightarrow> [] | st' # _ \<Rightarrow> [MState (prev st) (rest st) (caps st')])"
| "ms (NotAhead r) st = (case ms r st of [] \<Rightarrow> [st] | _ # _ \<Rightarrow> [])"
| "ms Bos st = (if prev st = None then [st] else [])"
| "ms Eos st = (if rest st = [] then [st] else [])"
| "ms Bol st =
     (case prev st of None \<Rightarrow> [st] | Some c \<Rightarrow> if is_line_term c then [st] else [])"
| "ms Eol st =
     (case rest st of [] \<Rightarrow> [st] | c # _ \<Rightarrow> if is_line_term c then [st] else [])"
  by pat_completeness auto
termination
  by (relation "measures [\<lambda>(r, st). size r, \<lambda>(r, st). length (rest st)]") auto

text \<open>Derived forms: a literal string, \<^verbatim>\<open>+\<close>, \<^verbatim>\<open>+?\<close>, \<^verbatim>\<open>?\<close>, \<^verbatim>\<open>{0,n}\<close>.\<close>

fun Lit :: "string \<Rightarrow> re" where
  "Lit [] = Eps"
| "Lit (c # cs) = Seq (Chr c) (Lit cs)"

definition Plus :: "re \<Rightarrow> re" where
  "Plus r = Seq r (Star r)"

definition PlusLazy :: "re \<Rightarrow> re" where
  "PlusLazy r = Seq r (StarLazy r)"

definition Opt :: "re \<Rightarrow> re" where
  "Opt r = Alt r Eps"

fun UpTo :: "nat \<Rightarrow> re \<Rightarrow> re" where
  "UpTo 0 r = Eps"
| "UpTo (Suc n) r = Alt (Seq r (UpTo n r)) Eps"

text \<open>A sequence of several parts, as the source joins the parts of its patterns.\<close>

fun Seqs :: "re list \<Rightarrow> re" where
  "Seqs [] = Eps"
| "Seqs [r] = r"
| "Seqs (r # rs) = Seq r (Seqs rs)"

text \<open>Character classes.\<close>

definition Dot :: re where "Dot = Cls (\<lambda>c. \<not> is_line_term c)"
definition Any :: re where "Any = Cls (\<lambda>c. True)"
definition Space :: re where "Space = Cls is_space"
definition NonSpace :: re where "NonSpace = Cls (\<lambda>c. \<not> is_space c)"
definition Digit :: re where "Digit = Cls is_digit"
definition Sp :: re where "Sp = Chr CHR '' ''"
definition ChrI :: "char \<Rightarrow> re" where "ChrI c = Cls (\<lambda>x. to_lower x = to_lower c)"

fun LitI :: "string \<Rightarrow> re" where
  "LitI [] = Eps"
| "LitI (c # cs) = Seq (ChrI c) (LitI cs)"

fun Alts :: "re list \<Rightarrow> re" where
  "Alts [] = NotAhead Eps"
| "Alts [r] = r"
| "Alts (r # rs) = Alt r (Alts rs)"

section \<open>The string methods of the host language\<close>

text \<open>\<open>re_exec r p s\<close>: match \<open>r\<close> at the current position; the first success wins.\<close>

definition re_exec :: "re \<Rightarrow> char option \<Rightarrow> string \<Rightarrow> mstate option" where
  "re_exec r p s = (case ms r (MState p s Map.empty) of [] \<Rightarrow> None | m # _ \<Rightarrow> Some m)"

text \<open>
  \<open>re_search r p s\<close>: the leftmost match in \<open>s\<close>, as \<^verbatim>\<open>String.prototype.match\<close> and a
  non-global \<^verbatim>\<open>replace\<close> find it: the text before the match, the matched text, the
  final state.
\<close>

fun re_search :: "re \<Rightarrow> char option \<Rightarrow> string \<Rightarrow> (string \<times> string \<times> mstate) option" where
  "re_search r p [] =
     (case re_exec r p [] of None \<Rightarrow> None | Some m \<Rightarrow> Some ([], [], m))"
| "re_search r p (c # cs) =
     (case re_exec r p (c # cs) of
        Some m \<Rightarrow> Some ([], take (length (c # cs) - length (rest m)) (c # cs), m)
      | None \<Rightarrow>
          (case re_search r (Some c) cs of
             None \<Rightarrow> None
           | Some (pre, mt, m) \<Rightarrow> Some (c # pre, mt, m)))"

text \<open>\<^verbatim>\<open>str.match(re)\<close> used as a condition.\<close>

definition re_test :: "re \<Rightarrow> string \<Rightarrow> bool" where
  "re_test r s = (re_search r None s \<noteq> None)"

text \<open>\<^verbatim>\<open>str.replace(re, f)\<close> without the \<^verbatim>\<open>g\<close> flag: the first match only.\<close>

definition replace_first :: "re \<Rightarrow> (string \<Rightarrow> (nat \<rightharpoonup> string) \<Rightarrow> string) \<Rightarrow> string \<Rightarrow> string" where
  "replace_first r f s =
     (case re_search r None s of
        None \<Rightarrow> s
      | Some (pre, mt, m) \<Rightarrow> pre @ f mt (caps m) @ rest m)"

text \<open>
  A global \<^verbatim>\<open>replace\<close> first collects all matches of the text, from left to right, each
  search starting where the previous match ended (one code unit further after an empty
  match); then it substitutes. \<open>scan\<close> is the first phase: the text cut into code units
  outside the matches and the matches with their captures.
\<close>

datatype piece = Raw char | Hit string "nat \<rightharpoonup> string"

function scan :: "re \<Rightarrow> char option \<Rightarrow> string \<Rightarrow> piece list" where
  "scan r p s =
     (case re_exec r p s of
        None \<Rightarrow> (case s of [] \<Rightarrow> [] | c # cs \<Rightarrow> Raw c # scan r (Some c) cs)
      | Some m \<Rightarrow>
          if length (rest m) < length s
          then Hit (take (length s - length (rest m)) s) (caps m) # scan r (prev m) (rest m)
          else Hit [] (caps m) # (case s of [] \<Rightarrow> [] | c # cs \<Rightarrow> Raw c # scan r (Some c) cs))"
  by pat_completeness auto
termination
  by (relation "measure (\<lambda>(r, p, s). length s)") auto

text \<open>The second phase with a replacement function that has no effect.\<close>

fun subst :: "(string \<Rightarrow> (nat \<rightharpoonup> string) \<Rightarrow> string) \<Rightarrow> piece list \<Rightarrow> string" where
  "subst f [] = []"
| "subst f (Raw c # ps) = c # subst f ps"
| "subst f (Hit m cs # ps) = f m cs @ subst f ps"

definition replace_all :: "re \<Rightarrow> (string \<Rightarrow> (nat \<rightharpoonup> string) \<Rightarrow> string) \<Rightarrow> string \<Rightarrow> string" where
  "replace_all r f s = subst f (scan r None s)"

text \<open>
  The second phase with a replacement function that reads and updates a state and may
  throw: the calls happen in the order of the matches, and the first exception ends
  the whole \<^verbatim>\<open>replace\<close>.
\<close>

datatype js_error = TypeError

fun subst_st :: "(string \<Rightarrow> (nat \<rightharpoonup> string) \<Rightarrow> 'st \<Rightarrow> js_error + string \<times> 'st)
                 \<Rightarrow> piece list \<Rightarrow> 'st \<Rightarrow> js_error + string \<times> 'st" where
  "subst_st f [] st = Inr ([], st)"
| "subst_st f (Raw c # ps) st =
     (case subst_st f ps st of Inl e \<Rightarrow> Inl e | Inr (out, st') \<Rightarrow> Inr (c # out, st'))"
| "subst_st f (Hit m cs # ps) st =
     (case f m cs st of
        Inl e \<Rightarrow> Inl e
      | Inr (x, st1) \<Rightarrow>
          (case subst_st f ps st1 of Inl e \<Rightarrow> Inl e | Inr (out, st2) \<Rightarrow> Inr (x @ out, st2)))"

definition replace_all_st ::
  "re \<Rightarrow> (string \<Rightarrow> (nat \<rightharpoonup> string) \<Rightarrow> 'st \<Rightarrow> js_error + string \<times> 'st)
   \<Rightarrow> string \<Rightarrow> 'st \<Rightarrow> js_error + string \<times> 'st" where
  "replace_all_st r f s st = subst_st f (scan r None s) st"

text \<open>
  \<^verbatim>\<open>str.split(re)\<close>: \<open>acc\<close> holds the code units since the end of the last separator. A
  match that ends where the last separator ended is skipped. The patterns that this
  program splits on have no capturing group, so nothing but the parts is returned.
\<close>

function split_loop :: "re \<Rightarrow> string \<Rightarrow> char option \<Rightarrow> string \<Rightarrow> string list" where
  "split_loop r acc p s =
     (case s of
        [] \<Rightarrow> [acc]
      | c # cs \<Rightarrow>
          (case re_exec r p s of
             None \<Rightarrow> split_loop r (acc @ [c]) (Some c) cs
           | Some m \<Rightarrow>
               if length (rest m) < length s then acc # split_loop r [] (prev m) (rest m)
               else if acc = [] then split_loop r (acc @ [c]) (Some c) cs
               else acc # split_loop r [] p s))"
  by pat_completeness auto
termination
  by (relation "measures [\<lambda>(r, acc, p, s). length s, \<lambda>(r, acc, p, s). length acc]") auto

definition split_re :: "re \<Rightarrow> string \<Rightarrow> string list" where
  "split_re r s =
     (if s = [] then (case re_exec r None [] of None \<Rightarrow> [[]] | Some _ \<Rightarrow> [])
      else split_loop r [] None s)"

text \<open>\<^verbatim>\<open>str.split('\n')\<close>: a separator of one code unit.\<close>

fun split_chr :: "char \<Rightarrow> string \<Rightarrow> string list" where
  "split_chr d [] = [[]]"
| "split_chr d (c # cs) =
     (if c = d then [] # split_chr d cs
      else (case split_chr d cs of [] \<Rightarrow> [[c]] | x # xs \<Rightarrow> (c # x) # xs))"

text \<open>Reading an array element: \<open>None\<close> is \<^verbatim>\<open>undefined\<close>.\<close>

definition js_nth :: "'a list \<Rightarrow> nat \<Rightarrow> 'a option" where
  "js_nth xs i = (if i < length xs then Some (xs ! i) else None)"

section \<open>Utility functions\<close>

text \<open>\<^verbatim>\<open>str.replace(/^\s+|\s+$/g, '')\<close>\<close>

definition trim :: "string \<Rightarrow> string" where
  "trim str = replace_all (Alt (Seq Bos (Plus Space)) (Seq (Plus Space) Eos)) (\<lambda>m cs. []) str"

text \<open>\<^verbatim>\<open>str.replace(/\s+$/g, '')\<close>\<close>

definition rtrim :: "string \<Rightarrow> string" where
  "rtrim str = replace_all (Seq (Plus Space) Eos) (\<lambda>m cs. []) str"

text \<open>\<^verbatim>\<open>text.replace(new RegExp('^(\\t|[ ]{1,4})', 'mg'), '')\<close>\<close>

definition outdent :: "string \<Rightarrow> string" where
  "outdent text =
     replace_all (Seq Bol (Grp 1 (Alt (Chr TAB) (Seq Sp (UpTo 3 Sp))))) (\<lambda>m cs. []) text"

text \<open>\<^verbatim>\<open>text.replace(/\\\|/g, '&#124;').replace(/\\:/g, '&#58;')\<close>\<close>

definition processEscapes :: "string \<Rightarrow> string" where
  "processEscapes text =
     replace_all (Lit [BSL, CHR '':'']) (\<lambda>m cs. ''&#58;'')
       (replace_all (Lit [BSL, CHR ''|'']) (\<lambda>m cs. ''&#124;'') text)"

text \<open>\<^verbatim>\<open>text.charAt(0)\<close> and \<^verbatim>\<open>text.charAt(text.length - 1)\<close>: the empty string when
  the text is empty, here \<open>None\<close>.\<close>

definition first_char :: "string \<Rightarrow> char option" where
  "first_char text = (case text of [] \<Rightarrow> None | c # _ \<Rightarrow> Some c)"

definition last_char :: "string \<Rightarrow> char option" where
  "last_char text = (if text = [] then None else Some (last text))"

definition addAnchors :: "string \<Rightarrow> string" where
  "addAnchors text =
     (let text1 = (if first_char text \<noteq> Some STX then STX # text else text);
          text2 = (if last_char text1 \<noteq> Some ETX then text1 @ [ETX] else text1)
      in text2)"

definition removeAnchors :: "string \<Rightarrow> string" where
  "removeAnchors text =
     (let text1 = (if first_char text = Some STX then drop 1 text else text);
          text2 = (if last_char text1 = Some ETX then take (length text1 - 1) text1 else text1)
      in text2)"

text \<open>The whitelist of span-level tags, with the \<^verbatim>\<open>i\<close> flag.\<close>

definition inlineTagNames :: "string list" where
  "inlineTagNames =
     [''a'', ''abbr'', ''acronym'', ''applet'', ''area'', ''b'', ''basefont'',
      ''bdo'', ''big'', ''button'', ''cite'', ''code'', ''del'', ''dfn'', ''em'', ''figcaption'',
      ''font'', ''i'', ''iframe'', ''img'', ''input'', ''ins'', ''kbd'', ''label'', ''map'',
      ''mark'', ''meter'', ''object'', ''param'', ''progress'', ''q'', ''ruby'', ''rp'', ''rt'', ''s'',
      ''samp'', ''script'', ''select'', ''small'', ''span'', ''strike'', ''strong'',
      ''sub'', ''sup'', ''textarea'', ''time'', ''tt'', ''u'', ''var'', ''wbr'']"

definition NotGt :: re where "NotGt = Cls (\<lambda>c. c \<noteq> CHR ''>'')"

definition inlineTags :: re where
  "inlineTags =
     Seqs [Bos,
           Grp 1 (Alt (Seqs [Chr CHR ''<'', Opt (Chr CHR ''/''), Grp 2 (Alts (map LitI inlineTagNames)),
                             Star NotGt, Chr CHR ''>''])
                      (Seqs [Chr CHR ''<'', Grp 3 (LitI ''br''), Opt Space, Opt (Chr CHR ''/''),
                             Chr CHR ''>''])),
           Eos]"

text \<open>\<^verbatim>\<open>html.replace(/<[^>]*>?/gi, function(tag) { return tag.match(whitelist) ? tag : ''; })\<close>\<close>

definition tagPattern :: re where
  "tagPattern = Seqs [Chr CHR ''<'', Star NotGt, Opt (Chr CHR ''>'')]"

definition sanitizeHtml :: "string \<Rightarrow> re \<Rightarrow> string" where
  "sanitizeHtml html whitelist =
     replace_all tagPattern (\<lambda>tag cs. if re_test whitelist tag then tag else []) html"

section \<open>The extension object\<close>

text \<open>
  The fields of a \<^verbatim>\<open>Markdown.Extra\<close> object. The converter of the host is outside this
  program: the field holds its \<^verbatim>\<open>makeHtml\<close>, a function from text to text.
\<close>

record extra =
  converter :: "string \<Rightarrow> string"
  hashBlocks :: "string list"
  googleCodePrettify :: bool
  highlightJs :: bool
  tableClass :: string
  tabWidth :: nat

text \<open>The object that the constructor \<^verbatim>\<open>Markdown.Extra\<close> makes, with the converter that
  \<^verbatim>\<open>init\<close> gives it.\<close>

definition newExtra :: "(string \<Rightarrow> string) \<Rightarrow> extra" where
  "newExtra makeHtml =
     \<lparr>converter = makeHtml, hashBlocks = [], googleCodePrettify = False, highlightJs = False,
      tableClass = [], tabWidth = 4\<rparr>"

definition convertSpans :: "string \<Rightarrow> (string \<Rightarrow> string) \<Rightarrow> string" where
  "convertSpans text makeHtml = sanitizeHtml (makeHtml text) inlineTags"

text \<open>A value that may be \<^verbatim>\<open>undefined\<close>: its truth value and its conversion to a string.\<close>

definition truthy :: "string option \<Rightarrow> bool" where
  "truthy v = (case v of None \<Rightarrow> False | Some s \<Rightarrow> s \<noteq> [])"

definition js_str :: "string option \<Rightarrow> string" where
  "js_str v = (case v of None \<Rightarrow> ''undefined'' | Some s \<Rightarrow> s)"

subsection \<open>Hash blocks\<close>

text \<open>The decimal numeral of an array index.\<close>

definition digit_char :: "nat \<Rightarrow> char" where
  "digit_char d = char_of (48 + d)"

function show_nat :: "nat \<Rightarrow> string" where
  "show_nat n = (if n < 10 then [digit_char n] else show_nat (n div 10) @ [digit_char (n mod 10)])"
  by pat_completeness auto
termination
  by (relation "measure (\<lambda>n. n)") auto

text \<open>
  \<^verbatim>\<open>parseInt(m1, 10)\<close> on a text that starts with its digits: \<open>None\<close> is \<^verbatim>\<open>NaN\<close>. The
  result is a natural number; a double holds it exactly below \<open>2^53\<close>, far beyond the
  length an array can have.
\<close>

definition digit_val :: "char \<Rightarrow> nat" where
  "digit_val c = of_char c - 48"

definition parseInt :: "string \<Rightarrow> nat option" where
  "parseInt s =
     (let ds = takeWhile is_digit s
      in if ds = [] then None else Some (foldl (\<lambda>a c. 10 * a + digit_val c) 0 ds))"

text \<open>
  \<^verbatim>\<open>'<p>~X' + (this.hashBlocks.push(block) - 1) + 'X</p>'\<close>
\<close>

definition hashExtraBlock :: "string \<Rightarrow> extra \<Rightarrow> string \<times> extra" where
  "hashExtraBlock block self =
     (''<p>~X'' @ show_nat (length (hashBlocks self @ [block]) - 1) @ ''X</p>'',
      self\<lparr>hashBlocks := hashBlocks self @ [block]\<rparr>)"

definition placeholderPattern :: re where
  "placeholderPattern = Seqs [Lit ''<p>~X'', Grp 1 (Plus Digit), Lit ''X</p>'']"

text \<open>
  The replacement function returns \<^verbatim>\<open>self.hashBlocks[key]\<close>; \<^verbatim>\<open>replace\<close> converts what
  it returns to a string, \<^verbatim>\<open>undefined\<close> included.
\<close>

definition unHashExtraBlocks :: "extra \<Rightarrow> string \<Rightarrow> string" where
  "unHashExtraBlocks self text =
     replace_all placeholderPattern
       (\<lambda>wholeMatch cs.
          js_str (case parseInt (js_str (cs 1)) of
                    None \<Rightarrow> None
                  | Some key \<Rightarrow> js_nth (hashBlocks self) key))
       text"

definition finishConversion :: "extra \<Rightarrow> string \<Rightarrow> string \<times> extra" where
  "finishConversion self text =
     (let text1 = unHashExtraBlocks self text
      in (text1, self\<lparr>hashBlocks := []\<rparr>))"

subsection \<open>Tables\<close>

definition OneOf :: "string \<Rightarrow> re" where
  "OneOf cs = Cls (\<lambda>c. c \<in> set cs)"

definition Pipe :: re where "Pipe = Chr CHR ''|''"

text \<open>The two grammars of \<^verbatim>\<open>tables\<close>, both with the flags \<^verbatim>\<open>gm\<close>.\<close>

definition leadingPipe :: re where
  "leadingPipe =
     Seqs [Bol,
           UpTo 3 Sp,
           Pipe,
           Grp 1 (Plus Dot), Chr LF,
           UpTo 3 Sp,
           Pipe, Grp 2 (Seqs [Star Sp, Plus (OneOf ''-:''), Star (OneOf ''-| :'')]), Chr LF,
           Grp 3 (Star (Seqs [Star Sp, Pipe, Star Dot, Opt (Chr LF)])),
           Alt (Chr LF) Eol]"

definition noLeadingPipe :: re where
  "noLeadingPipe =
     Seqs [Bol,
           UpTo 3 Sp,
           Grp 1 (Seqs [NonSpace, Star Dot, Pipe, Star Dot]), Chr LF,
           UpTo 3 Sp,
           Grp 2 (Seqs [Plus (OneOf ''-:''), Star Sp, Pipe, Star (OneOf ''-| :'')]), Chr LF,
           Grp 3 (Star (Seqs [Star Dot, Pipe, Star Dot, Opt (Chr LF)])),
           Alt (Chr LF) Eol]"

text \<open>The patterns of \<^verbatim>\<open>doTable\<close>: \<^verbatim>\<open>/^ *[|]/m\<close>, \<^verbatim>\<open>/[|] *$/m\<close>, \<^verbatim>\<open>/ *[|] */\<close>,
  the three alignment patterns and \<^verbatim>\<open>/^\s*$/\<close>.\<close>

definition leadPipePat :: re where
  "leadPipePat = Seqs [Bol, Star Sp, Pipe]"

definition trailPipePat :: re where
  "trailPipePat = Seqs [Pipe, Star Sp, Eol]"

definition cellSep :: re where
  "cellSep = Seqs [Star Sp, Pipe, Star Sp]"

definition alignRight :: re where
  "alignRight = Seqs [Bol, Star Sp, Plus (Chr CHR ''-''), Chr CHR '':'', Star Sp, Eol]"

definition alignCenter :: re where
  "alignCenter =
     Seqs [Bol, Star Sp, Chr CHR '':'', Plus (Chr CHR ''-''), Chr CHR '':'', Star Sp, Eol]"

definition alignLeft :: re where
  "alignLeft = Seqs [Bol, Star Sp, Chr CHR '':'', Plus (Chr CHR ''-''), Star Sp, Eol]"

definition blankLine :: re where
  "blankLine = Seqs [Bos, Star Space, Eos]"

text \<open>The body of the loop over \<^verbatim>\<open>alignspecs\<close>.\<close>

definition alignOf :: "string \<Rightarrow> string" where
  "alignOf spec =
     (if re_test alignRight spec then '' style=\"text-align:right;\"''
      else if re_test alignCenter spec then '' style=\"text-align:center;\"''
      else if re_test alignLeft spec then '' style=\"text-align:left;\"''
      else [])"

text \<open>
  \<^verbatim>\<open>for (j = 0; j < colCount; j++)\<close> over the cells of one row: \<^verbatim>\<open>trim\<close> throws on
  a cell that is \<^verbatim>\<open>undefined\<close>; \<^verbatim>\<open>join\<close> writes an \<^verbatim>\<open>align[j]\<close> that is
  \<^verbatim>\<open>undefined\<close> as the empty string. The header row runs the same loop with \<^verbatim>\<open>th\<close>.
\<close>

definition cellHtml ::
  "(string \<Rightarrow> string) \<Rightarrow> string \<Rightarrow> string list \<Rightarrow> string list \<Rightarrow> nat \<Rightarrow> js_error + string" where
  "cellHtml makeHtml tag align cells j =
     (case js_nth cells j of
        None \<Rightarrow> Inl TypeError
      | Some cell \<Rightarrow>
          Inr (''  <'' @ tag @ (case js_nth align j of None \<Rightarrow> [] | Some a \<Rightarrow> a) @ ''>''
               @ convertSpans (trim cell) makeHtml @ ''</'' @ tag @ ''>'' @ [LF]))"

definition cellsLoop ::
  "(string \<Rightarrow> string) \<Rightarrow> string \<Rightarrow> string list \<Rightarrow> string list \<Rightarrow> nat \<Rightarrow> string
   \<Rightarrow> js_error + string" where
  "cellsLoop makeHtml tag align cells colCount html =
     foldl (\<lambda>acc j. case acc of
                       Inl e \<Rightarrow> Inl e
                     | Inr h \<Rightarrow> (case cellHtml makeHtml tag align cells j of
                                  Inl e \<Rightarrow> Inl e
                                | Inr c \<Rightarrow> Inr (h @ c)))
           (Inr html) [0..<colCount]"

text \<open>The body of the loop over \<^verbatim>\<open>rows\<close>.\<close>

definition rowStep ::
  "(string \<Rightarrow> string) \<Rightarrow> string list \<Rightarrow> nat \<Rightarrow> string \<Rightarrow> string \<Rightarrow> js_error + string" where
  "rowStep makeHtml align colCount html row =
     (if re_test blankLine row then Inr html
      else
        (let rowCells = split_re cellSep row;
             lenDiff = int colCount - int (length rowCells);
             rowCells1 = rowCells @ replicate (nat lenDiff) []
         in case cellsLoop makeHtml ''td'' align rowCells1 colCount (html @ ''<tr>'' @ [LF]) of
              Inl e \<Rightarrow> Inl e
            | Inr h \<Rightarrow> Inr (h @ ''</tr>'' @ [LF])))"

definition rowsLoop ::
  "(string \<Rightarrow> string) \<Rightarrow> string list \<Rightarrow> nat \<Rightarrow> string list \<Rightarrow> string \<Rightarrow> js_error + string" where
  "rowsLoop makeHtml align colCount rows html =
     foldl (\<lambda>acc row. case acc of
                         Inl e \<Rightarrow> Inl e
                       | Inr h \<Rightarrow> rowStep makeHtml align colCount h row)
           (Inr html) rows"

text \<open>\<^verbatim>\<open>doTable\<close> up to the finished \<^verbatim>\<open>html\<close>.\<close>

definition tableHtml :: "extra \<Rightarrow> string \<Rightarrow> string \<Rightarrow> string \<Rightarrow> js_error + string" where
  "tableHtml self header separator body =
     (let header1 = replace_first leadPipePat (\<lambda>m cs. []) header;
          separator1 = replace_first leadPipePat (\<lambda>m cs. []) separator;
          body1 = replace_all leadPipePat (\<lambda>m cs. []) body;
          header2 = replace_first trailPipePat (\<lambda>m cs. []) header1;
          separator2 = replace_first trailPipePat (\<lambda>m cs. []) separator1;
          body2 = replace_all trailPipePat (\<lambda>m cs. []) body1;
          alignspecs = split_re cellSep separator2;
          align = map alignOf alignspecs;
          headers = split_re cellSep header2;
          colCount = length headers;
          cls = (if tableClass self \<noteq> [] then '' class=\"'' @ tableClass self @ ''\"'' else []);
          html = ''<table'' @ cls @ ''>'' @ [LF] @ ''<thead>'' @ [LF] @ ''<tr>'' @ [LF]
      in case cellsLoop (converter self) ''th'' align headers colCount html of
           Inl e \<Rightarrow> Inl e
         | Inr html1 \<Rightarrow>
             (let html2 = html1 @ ''</tr>'' @ [LF] @ ''</thead>'' @ [LF];
                  rows = split_chr LF body2
              in case rowsLoop (converter self) align colCount rows html2 of
                   Inl e \<Rightarrow> Inl e
                 | Inr html3 \<Rightarrow> Inr (html3 @ ''</table>'' @ [LF])))"

text \<open>\<^verbatim>\<open>doTable\<close> as the replacement function: a capture that is \<^verbatim>\<open>undefined\<close> makes
  the first \<^verbatim>\<open>replace\<close> on it throw.\<close>

definition doTable :: "string \<Rightarrow> (nat \<rightharpoonup> string) \<Rightarrow> extra \<Rightarrow> js_error + string \<times> extra" where
  "doTable mt cs self =
     (case (cs 1, cs 2, cs 3) of
        (Some header, Some separator, Some body) \<Rightarrow>
          (case tableHtml self header separator body of
             Inl e \<Rightarrow> Inl e
           | Inr html \<Rightarrow> Inr (hashExtraBlock html self))
      | _ \<Rightarrow> Inl TypeError)"

definition tables :: "extra \<Rightarrow> string \<Rightarrow> js_error + string \<times> extra" where
  "tables self text =
     (case replace_all_st leadingPipe doTable text self of
        Inl e \<Rightarrow> Inl e
      | Inr (text1, self1) \<Rightarrow> replace_all_st noLeadingPipe doTable text1 self1)"

subsection \<open>Fenced code blocks\<close>

definition encodeCode :: "string \<Rightarrow> string" where
  "encodeCode code =
     (let code1 = replace_all (Chr CHR ''&'') (\<lambda>m cs. ''&amp;'') code;
          code2 = replace_all (Chr CHR ''<'') (\<lambda>m cs. ''&lt;'') code1;
          code3 = replace_all (Chr CHR ''>'') (\<lambda>m cs. ''&gt;'') code2
      in code3)"

text \<open>\<^verbatim>\<open>/(?:^|\n)```(.*)\n([\s\S]*?)\n```/g\<close>\<close>

definition fencePattern :: re where
  "fencePattern =
     Seqs [Alt Bos (Chr LF), Lit ''```'', Grp 1 (Star Dot), Chr LF,
           Grp 2 (StarLazy Any), Chr LF, Lit ''```'']"

definition fenceHtml :: "extra \<Rightarrow> string option \<Rightarrow> string \<Rightarrow> string" where
  "fenceHtml self language codeblock =
     (let preclass = (if googleCodePrettify self then '' class=\"prettyprint\"'' else []);
          codeclass =
            (if truthy language
             then (if googleCodePrettify self \<or> highlightJs self
                   then '' class=\"language-'' @ js_str language @ ''\"''
                   else '' class=\"'' @ js_str language @ ''\"'')
             else [])
      in ''<pre'' @ preclass @ ''><code'' @ codeclass @ ''>'' @ encodeCode codeblock
         @ ''</code></pre>'')"

definition fenceBlock :: "string \<Rightarrow> (nat \<rightharpoonup> string) \<Rightarrow> extra \<Rightarrow> js_error + string \<times> extra" where
  "fenceBlock mt cs self =
     (case cs 2 of
        None \<Rightarrow> Inl TypeError
      | Some codeblock \<Rightarrow> Inr (hashExtraBlock (fenceHtml self (cs 1) codeblock) self))"

definition fencedCodeBlocks :: "extra \<Rightarrow> string \<Rightarrow> js_error + string \<times> extra" where
  "fencedCodeBlocks self text = replace_all_st fencePattern fenceBlock text self"

definition all_ext :: "extra \<Rightarrow> string \<Rightarrow> js_error + string \<times> extra" where
  "all_ext self text =
     (case tables self text of
        Inl e \<Rightarrow> Inl e
      | Inr (text1, self1) \<Rightarrow> fencedCodeBlocks self1 text1)"

subsection \<open>Definition lists\<close>

text \<open>
  The pattern \<^verbatim>\<open>wholeList\<close> of \<^verbatim>\<open>definitionLists\<close>, flags \<^verbatim>\<open>gm\<close>. Its first
  alternative for the end of a list is written \<^verbatim>\<open>(?=\0x03)\<close> in the source: a NUL and
  the three characters \<^verbatim>\<open>x03\<close>. The term lines of the first negative lookahead end in
  a line feed and a space, as the source has them.
\<close>

definition defMark :: re where
  "defMark = Seqs [UpTo 3 Sp, Chr CHR '':'', Plus Sp]"

definition wholeList :: re where
  "wholeList =
     Seqs [Grp 1 (Alt (Seq (Chr STX) (Opt (Chr LF))) (Lit [LF, LF])),
           Grp 2 (Seqs [
             Grp 3 (Seqs [UpTo 3 Sp,
                          Grp 4 (Plus (Seqs [Star (OneOf [CHR '' '', TAB]), NonSpace, Star Dot,
                                             Chr LF])),
                          Opt (Chr LF),
                          defMark]),
             Grp 5 (PlusLazy Any),
             Grp 6 (Alt (Ahead (Lit (NUL # ''x03'')))
                        (Ahead (Seqs [Chr LF, Chr LF, Star (Chr LF),
                                      Ahead NonSpace,
                                      NotAhead (Seqs [UpTo 3 Sp,
                                                      PlusLazy (Seqs [NonSpace, Star Dot, Chr LF, Sp]),
                                                      Opt (Chr LF),
                                                      defMark]),
                                      NotAhead defMark])))])]"

text \<open>The patterns \<^verbatim>\<open>dt\<close> and \<^verbatim>\<open>dd\<close> of \<^verbatim>\<open>processDefListItems\<close>, flags \<^verbatim>\<open>mg\<close>.\<close>

definition dtPattern :: re where
  "dtPattern =
     Seqs [Grp 1 (Alt (Seq (Chr STX) (Opt (Chr LF))) (Seqs [Chr LF, Plus (Chr LF)])),
           Grp 2 (Seqs [UpTo 3 Sp,
                        NotAhead (Alt (Seq (Chr CHR '':'') Sp) Sp),
                        PlusLazy (Seqs [NonSpace, Star Dot, Chr LF])]),
           Ahead (Seqs [Opt (Chr LF), UpTo 3 Sp, Chr CHR '':'', Sp])]"

definition ddPattern :: re where
  "ddPattern =
     Seqs [Chr LF, Opt (Grp 1 (Plus (Chr LF))),
           Grp 2 (Seqs [UpTo 3 Sp, Chr CHR '':'', Plus Sp]),
           Grp 3 (PlusLazy Any),
           Ahead (Seqs [Star (Chr LF),
                        Alts [Seqs [Chr LF, UpTo 3 Sp, Chr CHR '':'', Sp],
                              Lit ''<dt>'',
                              Chr ETX]])]"

text \<open>\<^verbatim>\<open>/\n{2,}(?=\\x03)/\<close>: the lookahead of this pattern reads a backslash and the
  three characters \<^verbatim>\<open>x03\<close>.\<close>

definition trailingBlankLines :: re where
  "trailingBlankLines = Seqs [Chr LF, Chr LF, Star (Chr LF), Ahead (Lit (BSL # ''x03''))]"

definition blankGap :: re where
  "blankGap = Seqs [Chr LF, Chr LF, Star (Chr LF)]"

text \<open>The replacement function of \<^verbatim>\<open>dt\<close>.\<close>

definition dtItems :: "(string \<Rightarrow> string) \<Rightarrow> string \<Rightarrow> (nat \<rightharpoonup> string) \<Rightarrow> unit
                       \<Rightarrow> js_error + string \<times> unit" where
  "dtItems makeHtml mt cs u =
     (case cs 2 of
        None \<Rightarrow> Inl TypeError
      | Some termsStr \<Rightarrow>
          (let terms = split_chr LF (trim termsStr);
               text = foldl (\<lambda>text term.
                               text @ [LF] @ ''<dt>'' @ convertSpans (trim term) makeHtml @ ''</dt>'')
                            [] terms
           in Inr (text @ [LF], u)))"

text \<open>The two branches of the replacement function of \<^verbatim>\<open>dd\<close>.\<close>

definition ddLoose :: "(string \<Rightarrow> string) \<Rightarrow> string \<Rightarrow> string \<Rightarrow> string" where
  "ddLoose makeHtml marker_space def =
     (let def1 = replicate (length marker_space) CHR '' '' @ def;
          def2 = outdent def1 @ [LF, LF];
          def3 = [LF] @ makeHtml def2 @ [LF]
      in [LF] @ ''<dd>'' @ def3 @ ''</dd>'' @ [LF])"

definition ddTight :: "(string \<Rightarrow> string) \<Rightarrow> string \<Rightarrow> string" where
  "ddTight makeHtml def =
     (let def1 = rtrim def;
          def2 = convertSpans (outdent def1) makeHtml
      in [LF] @ ''<dd>'' @ def2 @ ''</dd>'' @ [LF])"

text \<open>
  The replacement function of \<^verbatim>\<open>dd\<close>, with \<^verbatim>\<open>leading_line\<close>, \<^verbatim>\<open>marker_space\<close> and
  \<^verbatim>\<open>def\<close> the captures 1, 2 and 3. \<^verbatim>\<open>def.match\<close> is evaluated only when
  \<^verbatim>\<open>leading_line\<close> is not truthy; it and \<^verbatim>\<open>marker_space.length\<close> throw on
  \<^verbatim>\<open>undefined\<close>.
\<close>

definition ddItem :: "(string \<Rightarrow> string) \<Rightarrow> string option \<Rightarrow> string option \<Rightarrow> string option
                      \<Rightarrow> js_error + string" where
  "ddItem makeHtml leading_line marker_space def =
     (if truthy leading_line
      then (case marker_space of
              None \<Rightarrow> Inl TypeError
            | Some sp \<Rightarrow> Inr (ddLoose makeHtml sp (js_str def)))
      else (case def of
              None \<Rightarrow> Inl TypeError
            | Some d \<Rightarrow>
                if re_test blankGap d
                then (case marker_space of
                        None \<Rightarrow> Inl TypeError
                      | Some sp \<Rightarrow> Inr (ddLoose makeHtml sp d))
                else Inr (ddTight makeHtml d)))"

definition ddItems :: "(string \<Rightarrow> string) \<Rightarrow> string \<Rightarrow> (nat \<rightharpoonup> string) \<Rightarrow> unit
                       \<Rightarrow> js_error + string \<times> unit" where
  "ddItems makeHtml mt cs u =
     (case ddItem makeHtml (cs 1) (cs 2) (cs 3) of
        Inl e \<Rightarrow> Inl e
      | Inr out \<Rightarrow> Inr (out, u))"

definition processDefListItems :: "extra \<Rightarrow> string \<Rightarrow> js_error + string" where
  "processDefListItems self listStr =
     (let listStr1 = addAnchors listStr;
          listStr2 = replace_first trailingBlankLines (\<lambda>m cs. [LF]) listStr1
      in case replace_all_st dtPattern (dtItems (converter self)) listStr2 () of
           Inl e \<Rightarrow> Inl e
         | Inr (listStr3, u) \<Rightarrow>
             (case replace_all_st ddPattern (ddItems (converter self)) listStr3 () of
                Inl e \<Rightarrow> Inl e
              | Inr (listStr4, u) \<Rightarrow> Inr (removeAnchors listStr4)))"

text \<open>The replacement function of \<^verbatim>\<open>wholeList\<close>: \<^verbatim>\<open>pre\<close> and \<^verbatim>\<open>list\<close> are the captures
  1 and 2.\<close>

definition defListBlock :: "string \<Rightarrow> (nat \<rightharpoonup> string) \<Rightarrow> extra \<Rightarrow> js_error + string \<times> extra" where
  "defListBlock mt cs self =
     (case cs 2 of
        None \<Rightarrow> Inl TypeError
      | Some list \<Rightarrow>
          (case processDefListItems self list of
             Inl e \<Rightarrow> Inl e
           | Inr items \<Rightarrow>
               (let result = trim items;
                    result1 = ''<dl>'' @ [LF] @ result @ [LF] @ ''</dl>'';
                    (placeholder, self1) = hashExtraBlock result1 self
                in Inr (js_str (cs 1) @ placeholder @ [LF, LF], self1))))"

definition definitionLists :: "extra \<Rightarrow> string \<Rightarrow> js_error + string \<times> extra" where
  "definitionLists self text =
     (let text1 = addAnchors text
      in case replace_all_st wholeList defListBlock text1 self of
           Inl e \<Rightarrow> Inl e
         | Inr (text2, self1) \<Rightarrow> Inr (removeAnchors text2, self1))"

subsection \<open>The two hooks\<close>

text \<open>The names that \<^verbatim>\<open>init\<close> puts into \<^verbatim>\<open>transformations\<close>; \<^verbatim>\<open>doConversion\<close> calls
  the method of each name.\<close>

datatype transformation = All | Tables | FencedCodeBlocks | DefinitionLists

fun transform :: "transformation \<Rightarrow> extra \<Rightarrow> string \<Rightarrow> js_error + string \<times> extra" where
  "transform All self text = all_ext self text"
| "transform Tables self text = tables self text"
| "transform FencedCodeBlocks self text = fencedCodeBlocks self text"
| "transform DefinitionLists self text = definitionLists self text"

fun transformLoop :: "transformation list \<Rightarrow> extra \<Rightarrow> string \<Rightarrow> js_error + string \<times> extra" where
  "transformLoop [] self text = Inr (text, self)"
| "transformLoop (t # ts) self text =
     (case transform t self text of
        Inl e \<Rightarrow> Inl e
      | Inr (text1, self1) \<Rightarrow> transformLoop ts self1 text1)"

definition doConversion :: "extra \<Rightarrow> transformation list \<Rightarrow> string \<Rightarrow> js_error + string \<times> extra" where
  "doConversion self transformations text =
     (let self0 = self\<lparr>hashBlocks := []\<rparr>;
          text1 = processEscapes text
      in case transformLoop transformations self0 text1 of
           Inl e \<Rightarrow> Inl e
         | Inr (text2, self1) \<Rightarrow> Inr (text2 @ [LF], self1))"

text \<open>What \<^verbatim>\<open>init\<close> derives from \<^verbatim>\<open>options.extensions\<close> and \<^verbatim>\<open>options.highlighter\<close>.\<close>

definition initTransformations :: "string list option \<Rightarrow> transformation list" where
  "initTransformations extensions =
     (let exts = (case extensions of None \<Rightarrow> [''all''] | Some es \<Rightarrow> es)
      in if ''all'' \<in> set exts then [All]
         else (if ''tables'' \<in> set exts then [Tables] else [])
              @ (if ''fenced_code_gfm'' \<in> set exts then [FencedCodeBlocks] else [])
              @ (if ''def_list'' \<in> set exts then [DefinitionLists] else []))"

definition initHighlighter :: "string option \<Rightarrow> extra \<Rightarrow> extra" where
  "initHighlighter highlighter self =
     (case highlighter of
        None \<Rightarrow> self
      | Some h \<Rightarrow> self\<lparr>googleCodePrettify := (h = ''prettify''), highlightJs := (h = ''highlight'')\<rparr>)"

section \<open>Definitions that follow the specification\<close>

text \<open>
  One pass over the text from left to right: \<open>escapePair a b out\<close> replaces every
  occurrence of the two code units \<open>a\<close>, \<open>b\<close> by \<open>out\<close>.
\<close>

fun escapePair :: "char \<Rightarrow> char \<Rightarrow> string \<Rightarrow> string \<Rightarrow> string" where
  "escapePair a b out [] = []"
| "escapePair a b out [c] = [c]"
| "escapePair a b out (c # d # cs) =
     (if c = a \<and> d = b then out @ escapePair a b out cs else c # escapePair a b out (d # cs))"

text \<open>
  The escape normalizer as the specification words it: the text unchanged but for every
  backslash followed by a pipe, which becomes \<^verbatim>\<open>&#124;\<close>, and every backslash followed
  by a colon, which becomes \<^verbatim>\<open>&#58;\<close>.
\<close>

fun escapeBoth :: "string \<Rightarrow> string" where
  "escapeBoth [] = []"
| "escapeBoth [c] = [c]"
| "escapeBoth (c # d # cs) =
     (if c = BSL \<and> d = CHR ''|'' then ''&#124;'' @ escapeBoth cs
      else if c = BSL \<and> d = CHR '':'' then ''&#58;'' @ escapeBoth cs
      else c # escapeBoth (d # cs))"

text \<open>
  A session's calls of \<^verbatim>\<open>hashExtraBlock\<close>, one per block, in order: the placeholders
  returned and the object after the last call.
\<close>

fun storeAll :: "string list \<Rightarrow> extra \<Rightarrow> string list \<times> extra" where
  "storeAll [] self = ([], self)"
| "storeAll (b # bs) self =
     (let (p, self1) = hashExtraBlock b self;
          (ps, self2) = storeAll bs self1
      in (p # ps, self2))"

text \<open>The placeholder that holds the digits \<open>ds\<close>.\<close>

definition placeholder :: "string \<Rightarrow> string" where
  "placeholder ds = ''<p>~X'' @ ds @ ''X</p>''"

text \<open>
  A text in which placeholders are embedded: a first piece of surrounding text, then
  placeholders by their indices, each followed by the next piece. \<open>f\<close> writes what stands
  for an index.
\<close>

fun weave :: "(nat \<Rightarrow> string) \<Rightarrow> string \<Rightarrow> (nat \<times> string) list \<Rightarrow> string" where
  "weave f s0 [] = s0"
| "weave f s0 ((i, s) # items) = s0 @ f i @ weave f s items"

text \<open>A non-empty run of decimal digits and its value.\<close>

definition digits :: "string \<Rightarrow> bool" where
  "digits ds = (ds \<noteq> [] \<and> list_all is_digit ds)"

definition digits_val :: "string \<Rightarrow> nat" where
  "digits_val ds = foldl (\<lambda>a c. 10 * a + digit_val c) 0 ds"

text \<open>
  The whitelist filter as the claim words it: every \<^verbatim>\<open><\<close> opens a tag that runs through
  the next \<^verbatim>\<open>>\<close>, or to the end of the text when no \<^verbatim>\<open>>\<close> follows; a tag that \<open>keep\<close>
  rejects is deleted, everything else is kept.
\<close>

function stripTags :: "(string \<Rightarrow> bool) \<Rightarrow> string \<Rightarrow> string" where
  "stripTags keep [] = []"
| "stripTags keep (c # t) =
     (if c = CHR ''<''
      then (let body = takeWhile (\<lambda>x. x \<noteq> CHR ''>'') t;
                r = dropWhile (\<lambda>x. x \<noteq> CHR ''>'') t;
                tag = c # body @ take 1 r
            in (if keep tag then tag else []) @ stripTags keep (drop 1 r))
      else c # stripTags keep t)"
  by pat_completeness auto
termination
proof (relation "measure (\<lambda>(keep, s). length s)")
  fix keep :: "string \<Rightarrow> bool" and c :: char and t x xa xb :: string
  assume "xa = dropWhile (\<lambda>x. x \<noteq> CHR ''>'') t"
  moreover have "length (dropWhile (\<lambda>x. x \<noteq> CHR ''>'') t) \<le> length t"
    by (rule length_dropWhile_le)
  ultimately show "((keep, drop 1 xa), (keep, c # t)) \<in> measure (\<lambda>(keep, s). length s)"
    by simp
qed simp_all

text \<open>The escaping of one code unit of a code block, as the specification lists it.\<close>

definition encodeChar :: "char \<Rightarrow> string" where
  "encodeChar c =
     (if c = CHR ''&'' then ''&amp;''
      else if c = CHR ''<'' then ''&lt;''
      else if c = CHR ''>'' then ''&gt;''
      else [c])"

text \<open>The input and the fragment of the specification's scenario for fenced code blocks.\<close>

definition fenceSample :: string where
  "fenceSample = ''```js'' @ [LF] @ ''var x = 1 < 2;'' @ [LF] @ ''```''"

definition fenceFragment :: string where
  "fenceFragment = ''<pre><code class=\"language-js\">var x = 1 &lt; 2;</code></pre>''"

text \<open>
  The shapes of separator tokens, spaces around them allowed as the patterns of
  \<^verbatim>\<open>doTable\<close> allow them: \<^verbatim>\<open>-+:\<close>, \<^verbatim>\<open>:-+:\<close> and \<^verbatim>\<open>:-+\<close>.
\<close>

definition SP :: char where "SP = CHR '' ''"

definition DASH :: char where "DASH = CHR ''-''"

definition COLON :: char where "COLON = CHR '':''"

definition shapeRight :: "string \<Rightarrow> bool" where
  "shapeRight t =
     (\<exists>a n b. 0 < n \<and> t = replicate a SP @ replicate n DASH @ [COLON] @ replicate b SP)"

definition shapeCenter :: "string \<Rightarrow> bool" where
  "shapeCenter t =
     (\<exists>a n b. 0 < n \<and> t = replicate a SP @ [COLON] @ replicate n DASH @ [COLON] @ replicate b SP)"

definition shapeLeft :: "string \<Rightarrow> bool" where
  "shapeLeft t =
     (\<exists>a n b. 0 < n \<and> t = replicate a SP @ [COLON] @ replicate n DASH @ replicate b SP)"

text \<open>
  The table renderer as the specification words it. A row of \<open>n\<close> columns takes the
  first \<open>n\<close> cells of a line and fills what is missing with empty cells.
\<close>

definition padTo :: "nat \<Rightarrow> string list \<Rightarrow> string list" where
  "padTo n xs = take n xs @ replicate (n - length xs) []"

text \<open>One cell: its tag with the style of its column, and its text span-rendered.\<close>

definition cellFragment :: "(string \<Rightarrow> string) \<Rightarrow> string \<Rightarrow> string \<Rightarrow> string \<Rightarrow> string" where
  "cellFragment makeHtml tag a cell =
     ''  <'' @ tag @ a @ ''>'' @ convertSpans (trim cell) makeHtml @ ''</'' @ tag @ ''>'' @ [LF]"

text \<open>One body line: nothing for a blank line, otherwise a row of \<open>n\<close> cells.\<close>

definition rowFragment :: "(string \<Rightarrow> string) \<Rightarrow> string list \<Rightarrow> nat \<Rightarrow> string \<Rightarrow> string" where
  "rowFragment makeHtml aligns n row =
     (if list_all is_space row then []
      else ''<tr>'' @ [LF]
           @ concat (map2 (cellFragment makeHtml ''td'') (padTo n aligns)
                          (padTo n (split_re cellSep row)))
           @ ''</tr>'' @ [LF])"

text \<open>
  The parts of a table block: a line without its leading and trailing pipe, the cells of
  the header, the styles of the columns and the lines of the body, as \<^verbatim>\<open>doTable\<close>
  computes them.
\<close>

definition stripPipes :: "string \<Rightarrow> string" where
  "stripPipes line =
     replace_first trailPipePat (\<lambda>m cs. []) (replace_first leadPipePat (\<lambda>m cs. []) line)"

definition headerCells :: "string \<Rightarrow> string list" where
  "headerCells header = split_re cellSep (stripPipes header)"

definition columnAligns :: "string \<Rightarrow> string list" where
  "columnAligns separator = map alignOf (split_re cellSep (stripPipes separator))"

definition bodyLines :: "string \<Rightarrow> string list" where
  "bodyLines body =
     split_chr LF (replace_all trailPipePat (\<lambda>m cs. []) (replace_all leadPipePat (\<lambda>m cs. []) body))"

text \<open>The whole table: a header row of as many cells as the header has, then the rows
  of the body lines, all of that width.\<close>

definition tableSpec :: "extra \<Rightarrow> string \<Rightarrow> string \<Rightarrow> string \<Rightarrow> string" where
  "tableSpec self header separator body =
     (let cells = headerCells header;
          n = length cells;
          aligns = columnAligns separator
      in ''<table'' @ (if tableClass self \<noteq> [] then '' class=\"'' @ tableClass self @ ''\"'' else [])
         @ ''>'' @ [LF] @ ''<thead>'' @ [LF] @ ''<tr>'' @ [LF]
         @ concat (map2 (cellFragment (converter self) ''th'') (padTo n aligns) cells)
         @ ''</tr>'' @ [LF] @ ''</thead>'' @ [LF]
         @ concat (map (rowFragment (converter self) aligns n) (bodyLines body))
         @ ''</table>'' @ [LF])"









text \<open>A text without its trailing white space.\<close>

definition rtrimSpec :: "string \<Rightarrow> string" where
  "rtrimSpec s = rev (dropWhile is_space (rev s))"












text \<open>A text without any syntax of the extensions.\<close>

definition plainSample :: string where
  "plainSample = ''plain text''"

text \<open>
  A text without the syntax of a transformation: the patterns of the transformation
  match nowhere in it, for the definition lists nowhere between the sentinels. A text
  without escapes: no backslash is followed by a pipe or a colon. A text without
  sentinels at its ends: it does not begin with the code unit 2 nor end with the code
  unit 3.
\<close>

fun unmatched :: "transformation \<Rightarrow> string \<Rightarrow> bool" where
  "unmatched All doc =
     (\<not> re_test leadingPipe doc \<and> \<not> re_test noLeadingPipe doc \<and> \<not> re_test fencePattern doc)"
| "unmatched Tables doc = (\<not> re_test leadingPipe doc \<and> \<not> re_test noLeadingPipe doc)"
| "unmatched FencedCodeBlocks doc = (\<not> re_test fencePattern doc)"
| "unmatched DefinitionLists doc = (\<not> re_test wholeList (addAnchors doc))"

definition escapeFree :: "string \<Rightarrow> bool" where
  "escapeFree doc = (\<not> sublist [BSL, CHR ''|''] doc \<and> \<not> sublist [BSL, CHR '':''] doc)"

definition sentinelFree :: "string \<Rightarrow> bool" where
  "sentinelFree doc = (first_char doc \<noteq> Some STX \<and> last_char doc \<noteq> Some ETX)"

section \<open>Definitions for the proofs\<close>

text \<open>The state after \<open>k\<close> more code units.\<close>

definition adv :: "nat \<Rightarrow> mstate \<Rightarrow> mstate" where
  "adv k st =
     MState (if k = 0 then prev st else Some (rest st ! (k - 1))) (drop k (rest st)) (caps st)"

text \<open>\<open>single r P\<close>: the pattern \<open>r\<close> matches exactly one code unit, one that satisfies \<open>P\<close>.\<close>

definition single :: "re \<Rightarrow> (char \<Rightarrow> bool) \<Rightarrow> bool" where
  "single r P =
     (\<forall>st. ms r st = (case rest st of [] \<Rightarrow> []
                      | x # xs \<Rightarrow> if P x then [MState (Some x) xs (caps st)] else []))"

text \<open>A match of \<open>placeholderPattern\<close> at the start of a text, read off the text directly:
  the digits and the text after the match.\<close>

definition match_ph :: "string \<Rightarrow> (string \<times> string) option" where
  "match_ph s =
     (if prefix ''<p>~X'' s
      then (let t = drop 5 s; ds = takeWhile is_digit t; r = dropWhile is_digit t
            in if ds \<noteq> [] \<and> prefix ''X</p>'' r then Some (ds, drop 5 r) else None)
      else None)"

text \<open>What restoration writes for the key \<open>key\<close>.\<close>

definition stored :: "extra \<Rightarrow> nat \<Rightarrow> string" where
  "stored self key =
     (if key < length (hashBlocks self) then hashBlocks self ! key else ''undefined'')"

text \<open>A match of \<open>tagPattern\<close> at the start of a text, read off the text directly: the tag
  and the text after it.\<close>

definition match_tag :: "string \<Rightarrow> (string \<times> string) option" where
  "match_tag s =
     (case s of
        [] \<Rightarrow> None
      | c # t \<Rightarrow>
          if c = CHR ''<''
          then Some (c # takeWhile (\<lambda>x. x \<noteq> CHR ''>'') t
                       @ take 1 (dropWhile (\<lambda>x. x \<noteq> CHR ''>'') t),
                     drop 1 (dropWhile (\<lambda>x. x \<noteq> CHR ''>'') t))
          else None)"

text \<open>\<open>needs c r\<close>: every match of \<open>r\<close> consumes the code unit \<open>c\<close>. \<open>grps r\<close>: groups that
  every match of \<open>r\<close> sets.\<close>

fun needs :: "char \<Rightarrow> re \<Rightarrow> bool" where
  "needs c (Chr d) = (c = d)"
| "needs c (Seq a b) = (needs c a \<or> needs c b)"
| "needs c (Alt a b) = (needs c a \<and> needs c b)"
| "needs c (Grp n r) = needs c r"
| "needs c r = False"

fun grps :: "re \<Rightarrow> nat set" where
  "grps (Grp n r) = insert n (grps r)"
| "grps (Seq a b) = grps a \<union> grps b"
| "grps (Alt a b) = grps a \<inter> grps b"
| "grps r = {}"

text \<open>The rest of a text after its leading run of the code unit \<open>c\<close>.\<close>

definition run :: "char \<Rightarrow> string \<Rightarrow> string" where
  "run c s = dropWhile (\<lambda>x. x = c) s"

text \<open>
  Patterns that read a line from left to right without a choice: single code units,
  greedy runs \<^verbatim>\<open>c*\<close> and \<^verbatim>\<open>c+\<close>, and the end of the line. \<open>compile\<close> is the pattern,
  \<open>accepts\<close> reads a text by it, \<open>starts is c\<close> says that a match of \<open>is\<close> can start with
  \<open>c\<close>, and \<open>det is\<close> that no run is followed by something that can start with the code
  unit of the run.
\<close>

datatype item = One char | Many char | Many1 char

fun compile :: "item list \<Rightarrow> re" where
  "compile [] = Eol"
| "compile (One c # is) = Seq (Chr c) (compile is)"
| "compile (Many c # is) = Seq (Star (Chr c)) (compile is)"
| "compile (Many1 c # is) = Seq (Plus (Chr c)) (compile is)"

fun accepts :: "item list \<Rightarrow> string \<Rightarrow> bool" where
  "accepts [] s = (case s of [] \<Rightarrow> True | x # xs \<Rightarrow> is_line_term x)"
| "accepts (One c # is) s = (case s of [] \<Rightarrow> False | x # xs \<Rightarrow> x = c \<and> accepts is xs)"
| "accepts (Many c # is) s = accepts is (run c s)"
| "accepts (Many1 c # is) s =
     (case s of [] \<Rightarrow> False | x # xs \<Rightarrow> x = c \<and> accepts is (run c xs))"

fun starts :: "item list \<Rightarrow> char \<Rightarrow> bool" where
  "starts [] c = is_line_term c"
| "starts (One d # is) c = (c = d)"
| "starts (Many d # is) c = (c = d \<or> starts is c)"
| "starts (Many1 d # is) c = (c = d)"

fun det :: "item list \<Rightarrow> bool" where
  "det [] = True"
| "det (One c # is) = det is"
| "det (Many c # is) = (\<not> starts is c \<and> det is)"
| "det (Many1 c # is) = (\<not> starts is c \<and> det is)"

text \<open>\<open>fails_on b P\<close>: the pattern \<open>b\<close> has no match where the next code unit satisfies \<open>P\<close>.\<close>

definition fails_on :: "re \<Rightarrow> (char \<Rightarrow> bool) \<Rightarrow> bool" where
  "fails_on b P = (\<forall>st. (\<exists>x xs. rest st = x # xs \<and> P x) \<longrightarrow> ms b st = [])"

text \<open>The three alignment patterns without their \<^verbatim>\<open>^\<close>.\<close>

definition rightItems :: "item list" where
  "rightItems = [Many SP, Many1 DASH, One COLON, Many SP]"

definition centerItems :: "item list" where
  "centerItems = [Many SP, One COLON, Many1 DASH, One COLON, Many SP]"

definition leftItems :: "item list" where
  "leftItems = [Many SP, One COLON, Many1 DASH, Many SP]"






text \<open>\<open>noLT l\<close>: no line terminator in \<open>l\<close>.\<close>

definition noLT :: "string \<Rightarrow> bool" where
  "noLT l = (\<forall>c\<in>set l. \<not> is_line_term c)"

text \<open>The code unit before the position after \<open>l\<close>.\<close>

definition prevAfter :: "char option \<Rightarrow> string \<Rightarrow> char option" where
  "prevAfter p l = (if l = [] then p else Some (last l))"


text \<open>\<open>only P r\<close>: every code unit that \<open>r\<close> consumes satisfies \<open>P\<close>. \<open>capOK n Q r\<close>: every
  match of \<open>r\<close> sets the group \<open>n\<close> to a text that satisfies \<open>Q\<close>.\<close>

fun only :: "(char \<Rightarrow> bool) \<Rightarrow> re \<Rightarrow> bool" where
  "only P (Chr c) = P c"
| "only P (Cls Q) = (\<forall>c. Q c \<longrightarrow> P c)"
| "only P (Seq a b) = (only P a \<and> only P b)"
| "only P (Alt a b) = (only P a \<and> only P b)"
| "only P (Star r) = only P r"
| "only P (StarLazy r) = only P r"
| "only P (Grp n r) = only P r"
| "only P r = True"


section \<open>Properties of the matcher\<close>

declare scan.simps [simp del]
declare split_loop.simps [simp del]
declare show_nat.simps [simp del]
declare Lit.simps [simp del]

lemmas ms_Star = ms.simps(6)
lemmas ms_StarLazy = ms.simps(7)
declare ms.simps(6,7) [simp del]

lemma ms_Lit:
  "ms (Lit w) st =
     (if prefix w (rest st)
      then [MState (if w = [] then prev st else Some (last w)) (drop (length w) (rest st)) (caps st)]
      else [])"
proof (induction w arbitrary: st)
  case Nil
  show ?case by (simp add: Lit.simps)
next
  case (Cons c w)
  show ?case
    by (cases "rest st") (auto simp: Lit.simps Cons)
qed

lemma exec_Lit:
  "re_exec (Lit w) p s =
     (if prefix w s
      then Some (MState (if w = [] then p else Some (last w)) (drop (length w) s) Map.empty)
      else None)"
  by (simp add: re_exec_def ms_Lit)

lemma single_Chr: "single (Chr c) (\<lambda>x. x = c)"
  by (simp add: single_def)

lemma single_Cls: "single (Cls P) P"
  by (simp add: single_def)

lemma adv_0 [simp]: "adv 0 st = st"
  by (cases st) (simp add: adv_def)

lemma adv_Suc_Cons: "rest st = x # xs \<Longrightarrow> adv (Suc k) st = adv k (MState (Some x) xs (caps st))"
  by (cases k) (auto simp: adv_def)

lemma rest_adv [simp]: "rest (adv k st) = drop k (rest st)"
  by (simp add: adv_def)

lemma caps_adv [simp]: "caps (adv k st) = caps st"
  by (simp add: adv_def)

lemma ms_Star_single:
  assumes "single r P"
  shows "ms (Star r) st = map (\<lambda>k. adv k st) (rev [0..<Suc (length (takeWhile P (rest st)))])"
proof (induction "rest st" arbitrary: st)
  case Nil
  then show ?case using assms by (simp add: single_def ms_Star)
next
  case (Cons x xs)
  note r = Cons(2)[symmetric]
  show ?case
  proof (cases "P x")
    case False
    then show ?thesis using assms r by (simp add: single_def ms_Star)
  next
    case True
    let ?st1 = "MState (Some x) xs (caps st)"
    have IH: "ms (Star r) ?st1 = map (\<lambda>k. adv k ?st1) (rev [0..<Suc (length (takeWhile P xs))])"
      using Cons(1)[of ?st1] by simp
    have m: "ms r st = [?st1]" using assms r True by (simp add: single_def)
    have "ms (Star r) st = ms (Star r) ?st1 @ [st]"
      by (simp add: m r ms_Star)
    also have "\<dots> = map (\<lambda>k. adv (Suc k) st) (rev [0..<Suc (length (takeWhile P xs))]) @ [adv 0 st]"
      unfolding IH by (simp add: adv_Suc_Cons[OF r])
    also have "\<dots> = map (\<lambda>k. adv k st) (rev [0..<Suc (Suc (length (takeWhile P xs)))])"
    proof -
      have "[0..<Suc (Suc (length (takeWhile P xs)))] = 0 # map Suc [0..<Suc (length (takeWhile P xs))]"
        by (metis map_Suc_upt upt_conv_Cons zero_less_Suc)
      then show ?thesis by (simp add: rev_map comp_def del: upt_Suc)
    qed
    finally show ?thesis using r True by simp
  qed
qed

text \<open>When the continuation cannot start on a code unit of the class, only the longest run counts.\<close>

lemma greedy_only:
  assumes "\<And>k. k < n \<Longrightarrow> f (adv k st) = []"
  shows "concat (map f (map (\<lambda>k. adv k st) (rev [0..<Suc n]))) = f (adv n st)"
proof -
  have "concat (map f (map (\<lambda>k. adv k st) (rev [0..<n]))) = []"
    using assms by (induction n) auto
  then show ?thesis by simp
qed

lemma hd_drop_takeWhile:
  "k < length (takeWhile P s) \<Longrightarrow> \<exists>x xs. drop k s = x # xs \<and> P x"
proof -
  assume k: "k < length (takeWhile P s)"
  have "k < length s" using k length_takeWhile_le[of P s] by simp
  then have "drop k s = s ! k # drop (Suc k) s" by (simp add: Cons_nth_drop_Suc)
  moreover have "P (s ! k)" using k
    by (metis nth_mem set_takeWhileD takeWhile_nth)
  ultimately show ?thesis by blast
qed

lemma ms_Seq_Star_single:
  assumes "single r P"
      and "\<And>st'. (\<exists>x xs. rest st' = x # xs \<and> P x) \<Longrightarrow> ms b st' = []"
  shows "ms (Seq (Star r) b) st = ms b (adv (length (takeWhile P (rest st))) st)"
proof -
  have "ms (Seq (Star r) b) st = concat (map (ms b) (map (\<lambda>k. adv k st) (rev [0..<Suc (length (takeWhile P (rest st)))])))"
    by (simp add: ms_Star_single[OF assms(1)])
  also have "\<dots> = ms b (adv (length (takeWhile P (rest st))) st)"
  proof (rule greedy_only)
    fix k assume "k < length (takeWhile P (rest st))"
    from hd_drop_takeWhile[OF this] show "ms b (adv k st) = []"
      by (intro assms(2)) simp
  qed
  finally show ?thesis .
qed

lemma scan_no_match:
  "re_search r p s = None \<Longrightarrow> scan r p s = map Raw s"
proof (induction s arbitrary: p)
  case Nil
  then show ?case by (subst scan.simps) (simp split: option.splits)
next
  case (Cons c cs)
  from Cons.prems have e: "re_exec r p (c # cs) = None" and n: "re_search r (Some c) cs = None"
    by (auto split: option.splits)
  show ?case
    by (subst scan.simps) (simp add: e Cons.IH[OF n])
qed

lemma subst_Raw: "subst f (map Raw s) = s"
  by (induction s) auto

lemma replace_all_no_match: "\<not> re_test r s \<Longrightarrow> replace_all r f s = s"
proof -
  assume "\<not> re_test r s"
  then have "re_search r None s = None"
    unfolding re_test_def by blast
  then show ?thesis by (simp add: replace_all_def scan_no_match subst_Raw)
qed

lemma subst_append: "subst f (xs @ ys) = subst f xs @ subst f ys"
  by (induction f xs rule: subst.induct) auto

lemma ms_Star_single_hd:
  assumes "single r P"
  shows "\<exists>tl. ms (Star r) st = adv (length (takeWhile P (rest st))) st # tl"
  by (simp add: ms_Star_single[OF assms])

lemma ms_suffix: "st' \<in> set (ms r st) \<Longrightarrow> suffix (rest st') (rest st)"
proof (induction r st arbitrary: st' rule: ms.induct)
  case (1 c st)
  then show ?case by (cases "rest st") (auto simp: suffix_def split: if_splits)
next
  case (2 P st)
  then show ?case by (cases "rest st") (auto simp: suffix_def split: if_splits)
next
  case (3 st)
  then show ?case by simp
next
  case (4 a b st)
  from "4.prems" obtain st1 where 1: "st1 \<in> set (ms a st)" "st' \<in> set (ms b st1)" by auto
  from "4.IH"(2)[OF 1(1) 1(2)] "4.IH"(1)[OF 1(1)] show ?case
    by (rule suffix_order.trans)
next
  case (5 a b st)
  from "5.prems" have "st' \<in> set (ms a st) \<or> st' \<in> set (ms b st)" by simp
  with "5.IH" show ?case by blast
next
  case (6 r st)
  from "6.prems" consider "st' = st"
    | st1 where "st1 \<in> set (ms r st)" "length (rest st1) < length (rest st)" "st' \<in> set (ms (Star r) st1)"
    by (subst (asm) ms_Star) (auto split: if_splits)
  then show ?case
  proof cases
    case 1 then show ?thesis by simp
  next
    case 2
    from "6.IH"(2)[OF 2(1) 2(2) 2(3)] "6.IH"(1)[OF 2(1)] show ?thesis
      by (rule suffix_order.trans)
  qed
next
  case (7 r st)
  from "7.prems" consider "st' = st"
    | st1 where "st1 \<in> set (ms r st)" "length (rest st1) < length (rest st)" "st' \<in> set (ms (StarLazy r) st1)"
    by (subst (asm) ms_StarLazy) (auto split: if_splits)
  then show ?case
  proof cases
    case 1 then show ?thesis by simp
  next
    case 2
    from "7.IH"(2)[OF 2(1) 2(2) 2(3)] "7.IH"(1)[OF 2(1)] show ?thesis
      by (rule suffix_order.trans)
  qed
next
  case (8 n r st)
  from "8.prems" obtain st1 where 1: "st1 \<in> set (ms r st)" "rest st' = rest st1" by auto
  from "8.IH"[OF 1(1)] 1(2) show ?case by simp
next
  case (9 r st)
  then show ?case by (cases "ms r st") auto
next
  case (10 r st)
  then show ?case by (cases "ms r st") auto
next
  case (11 st)
  then show ?case by (simp split: if_splits)
next
  case (12 st)
  then show ?case by (simp split: if_splits)
next
  case (13 st)
  then show ?case by (cases "prev st") (simp_all split: if_splits)
next
  case (14 st)
  then show ?case by (cases "rest st") (simp_all split: if_splits)
qed

lemma ms_needs: "needs c r \<Longrightarrow> st' \<in> set (ms r st) \<Longrightarrow> c \<in> set (rest st)"
proof (induction r arbitrary: st st')
  case (Chr d)
  then show ?case by (cases "rest st") (auto split: if_splits)
next
  case (Seq a b)
  from Seq.prems(2) obtain st1 where 1: "st1 \<in> set (ms a st)" "st' \<in> set (ms b st1)" by auto
  show ?case
  proof (cases "needs c a")
    case True
    with Seq.IH(1) 1 show ?thesis by blast
  next
    case False
    with Seq.prems(1) have "needs c b" by simp
    with Seq.IH(2) 1 have "c \<in> set (rest st1)" by blast
    with ms_suffix[OF 1(1)] show ?thesis by (auto simp: suffix_def)
  qed
next
  case (Alt a b)
  then show ?case by auto
next
  case (Grp n r)
  then show ?case by auto
qed simp_all

lemma ms_caps: "st' \<in> set (ms r st) \<Longrightarrow> dom (caps st) \<union> grps r \<subseteq> dom (caps st')"
proof (induction r st arbitrary: st' rule: ms.induct)
  case (1 c st)
  then show ?case by (cases "rest st") (auto split: if_splits)
next
  case (2 P st)
  then show ?case by (cases "rest st") (auto split: if_splits)
next
  case (3 st)
  then show ?case by simp
next
  case (4 a b st)
  from "4.prems" obtain st1 where 1: "st1 \<in> set (ms a st)" "st' \<in> set (ms b st1)" by auto
  have "dom (caps st) \<union> grps a \<subseteq> dom (caps st1)" by (rule "4.IH"(1)[OF 1(1)])
  moreover have "dom (caps st1) \<union> grps b \<subseteq> dom (caps st')" by (rule "4.IH"(2)[OF 1(1) 1(2)])
  ultimately have "dom (caps st) \<union> (grps a \<union> grps b) \<subseteq> dom (caps st')" by blast
  then show ?case by simp
next
  case (5 a b st)
  from "5.prems" have "st' \<in> set (ms a st) \<or> st' \<in> set (ms b st)" by simp
  then have "dom (caps st) \<union> grps a \<subseteq> dom (caps st') \<or> dom (caps st) \<union> grps b \<subseteq> dom (caps st')"
    using "5.IH" by blast
  then have "dom (caps st) \<union> (grps a \<inter> grps b) \<subseteq> dom (caps st')" by blast
  then show ?case by simp
next
  case (6 r st)
  from "6.prems" consider "st' = st"
    | st1 where "st1 \<in> set (ms r st)" "length (rest st1) < length (rest st)" "st' \<in> set (ms (Star r) st1)"
    by (subst (asm) ms_Star) (auto split: if_splits)
  then show ?case
  proof cases
    case 1 then show ?thesis by simp
  next
    case 2
    have "dom (caps st) \<union> grps r \<subseteq> dom (caps st1)" by (rule "6.IH"(1)[OF 2(1)])
    moreover have "dom (caps st1) \<union> grps (Star r) \<subseteq> dom (caps st')"
      by (rule "6.IH"(2)[OF 2(1) 2(2) 2(3)])
    ultimately have "dom (caps st) \<subseteq> dom (caps st')" by blast
    then show ?thesis by simp
  qed
next
  case (7 r st)
  from "7.prems" consider "st' = st"
    | st1 where "st1 \<in> set (ms r st)" "length (rest st1) < length (rest st)" "st' \<in> set (ms (StarLazy r) st1)"
    by (subst (asm) ms_StarLazy) (auto split: if_splits)
  then show ?case
  proof cases
    case 1 then show ?thesis by simp
  next
    case 2
    have "dom (caps st) \<union> grps r \<subseteq> dom (caps st1)" by (rule "7.IH"(1)[OF 2(1)])
    moreover have "dom (caps st1) \<union> grps (StarLazy r) \<subseteq> dom (caps st')"
      by (rule "7.IH"(2)[OF 2(1) 2(2) 2(3)])
    ultimately have "dom (caps st) \<subseteq> dom (caps st')" by blast
    then show ?thesis by simp
  qed
next
  case (8 n r st)
  from "8.prems" obtain st1 where 1: "st1 \<in> set (ms r st)"
    "caps st' = (caps st1)(n \<mapsto> take (length (rest st) - length (rest st1)) (rest st))" by auto
  have "dom (caps st) \<union> grps r \<subseteq> dom (caps st1)" by (rule "8.IH"[OF 1(1)])
  moreover have "dom (caps st') = insert n (dom (caps st1))" by (simp add: 1(2))
  ultimately have "dom (caps st) \<union> insert n (grps r) \<subseteq> dom (caps st')" by blast
  then show ?case by simp
next
  case (9 r st)
  from "9.prems" obtain st1 tl where 1: "ms r st = st1 # tl" "caps st' = caps st1"
    by (cases "ms r st") auto
  then have "st1 \<in> set (ms r st)" by simp
  from "9.IH"[OF this] have "dom (caps st) \<subseteq> dom (caps st1)" by blast
  then show ?case by (simp add: 1(2))
next
  case (10 r st)
  then show ?case by (cases "ms r st") auto
next
  case (11 st)
  then show ?case by (simp split: if_splits)
next
  case (12 st)
  then show ?case by (simp split: if_splits)
next
  case (13 st)
  then show ?case by (cases "prev st") (simp_all split: if_splits)
next
  case (14 st)
  then show ?case by (cases "rest st") (simp_all split: if_splits)
qed

lemma re_exec_in_ms: "re_exec r p s = Some m \<Longrightarrow> m \<in> set (ms r (MState p s Map.empty))"
  by (auto simp: re_exec_def split: list.splits)

lemma re_exec_caps: "re_exec r p s = Some m \<Longrightarrow> grps r \<subseteq> dom (caps m)"
  using ms_caps[OF re_exec_in_ms] by fastforce


lemma re_search_Some:
  "re_search r p s = Some (pre, mt, m) \<Longrightarrow> \<exists>q t. s = pre @ t \<and> re_exec r q t = Some m"
proof (induction s arbitrary: p pre)
  case Nil
  then show ?case by (auto split: option.splits)
next
  case (Cons c cs)
  show ?case
  proof (cases "re_exec r p (c # cs)")
    case (Some m')
    with Cons.prems show ?thesis by auto
  next
    case None
    with Cons.prems obtain pre' where "re_search r (Some c) cs = Some (pre', mt, m)" "pre = c # pre'"
      by (auto split: option.splits)
    with Cons.IH[of "Some c" pre'] show ?thesis by auto
  qed
qed

lemma re_test_needs: "needs c r \<Longrightarrow> re_test r s \<Longrightarrow> c \<in> set s"
proof -
  assume n: "needs c r" and "re_test r s"
  then obtain pre mt m where "re_search r None s = Some (pre, mt, m)"
    by (auto simp: re_test_def)
  from re_search_Some[OF this] obtain q t where s: "s = pre @ t" and e: "re_exec r q t = Some m"
    by blast
  from ms_needs[OF n re_exec_in_ms[OF e]] s show ?thesis by simp
qed

lemma scan_hits: "Hit m cs \<in> set (scan r p s) \<Longrightarrow> grps r \<subseteq> dom cs"
proof (induction r p s rule: scan.induct)
  case (1 r p s)
  show ?case
  proof (cases "re_exec r p s")
    case None
    show ?thesis
    proof (cases s)
      case Nil
      have "scan r p s = []"
        by (subst scan.simps) (simp add: None[unfolded Nil] Nil)
      with "1.prems" show ?thesis by simp
    next
      case (Cons c t)
      have "scan r p s = Raw c # scan r (Some c) t"
        by (subst scan.simps) (simp add: None[unfolded Cons] Cons)
      with "1.prems" have "Hit m cs \<in> set (scan r (Some c) t)" by simp
      with "1.IH"(1)[OF None Cons] show ?thesis .
    qed
  next
    case (Some st)
    note c = re_exec_caps[OF Some]
    show ?thesis
    proof (cases "length (rest st) < length s")
      case True
      have "scan r p s = Hit (take (length s - length (rest st)) s) (caps st)
                           # scan r (prev st) (rest st)"
        by (subst scan.simps) (simp add: Some True)
      with "1.prems" have "Hit m cs = Hit (take (length s - length (rest st)) s) (caps st)
                           \<or> Hit m cs \<in> set (scan r (prev st) (rest st))"
        by simp
      with "1.IH"(2)[OF Some True] c show ?thesis by auto
    next
      case False
      show ?thesis
      proof (cases s)
        case Nil
        have "scan r p s = [Hit [] (caps st)]"
          by (subst scan.simps) (simp add: Some[unfolded Nil] Nil)
        with "1.prems" have "Hit m cs = Hit [] (caps st)" by simp
        with c show ?thesis by auto
      next
        case (Cons x t)
        have "scan r p s = Hit [] (caps st) # Raw x # scan r (Some x) t"
          by (subst scan.simps) (use False in \<open>simp add: Some[unfolded Cons] Cons\<close>)
        with "1.prems" have "Hit m cs = Hit [] (caps st) \<or> Hit m cs \<in> set (scan r (Some x) t)"
          by simp
        with "1.IH"(3)[OF Some False Cons] c show ?thesis by auto
      qed
    qed
  qed
qed

lemma subst_st_total:
  "(\<And>m cs st. Hit m cs \<in> set ps \<Longrightarrow> \<exists>y. f m cs st = Inr y) \<Longrightarrow> \<exists>y. subst_st f ps st = Inr y"
proof (induction ps arbitrary: st)
  case Nil
  then show ?case by simp
next
  case (Cons a ps)
  have IH: "\<exists>y. subst_st f ps st' = Inr y" for st'
    by (rule Cons.IH) (rule Cons.prems, simp)
  show ?case
  proof (cases a)
    case (Raw c)
    from IH[of st] show ?thesis by (auto simp: Raw)
  next
    case (Hit m cs)
    from Cons.prems[of m cs st] obtain x st1 where "f m cs st = Inr (x, st1)" by (auto simp: Hit)
    with IH[of st1] show ?thesis by (auto simp: Hit)
  qed
qed

lemma replace_all_st_total:
  assumes "\<And>m cs st. grps r \<subseteq> dom cs \<Longrightarrow> \<exists>y. f m cs st = Inr y"
  shows "\<exists>y. replace_all_st r f s st = Inr y"
  unfolding replace_all_st_def
  by (rule subst_st_total) (rule assms, rule scan_hits)

lemma subst_st_Raw: "subst_st f (map Raw s) st = Inr (s, st)"
  by (induction s) auto

lemma replace_all_st_no_match: "\<not> re_test r s \<Longrightarrow> replace_all_st r f s st = Inr (s, st)"
proof -
  assume "\<not> re_test r s"
  then have "re_search r None s = None"
    unfolding re_test_def by blast
  then show ?thesis by (simp add: replace_all_st_def scan_no_match subst_st_Raw)
qed






section \<open>The escape normalizer\<close>

lemma subst_scan_pair: "subst (\<lambda>m cs. out) (scan (Lit [a, b]) p s) = escapePair a b out s"
proof (induction a b out s arbitrary: p rule: escapePair.induct)
  case (1 a b out)
  show ?case by (subst scan.simps) (simp add: exec_Lit)
next
  case (2 a b out c)
  show ?case
    apply (subst scan.simps)
    apply (simp add: exec_Lit)
    apply (subst scan.simps)
    apply (simp add: exec_Lit)
    done
next
  case (3 a b out c d cs)
  show ?case
    apply (subst scan.simps)
    using 3 apply (auto simp add: exec_Lit)
    done
qed

lemma replace_all_pair: "replace_all (Lit [a, b]) (\<lambda>m cs. out) s = escapePair a b out s"
  by (simp add: replace_all_def subst_scan_pair)

lemma escapePair_append:
  "a \<notin> set w \<Longrightarrow> w \<noteq> [] \<Longrightarrow> escapePair a b out (w @ s) = w @ escapePair a b out s"
proof (induction w)
  case Nil
  then show ?case by simp
next
  case (Cons c w)
  show ?case
  proof (cases w)
    case Nil
    with Cons.prems show ?thesis by (cases s) auto
  next
    case (Cons d w')
    with Cons.prems Cons.IH show ?thesis by auto
  qed
qed

lemma escapePair_cons:
  "c \<noteq> a \<or> X = [] \<or> hd X \<noteq> b \<Longrightarrow> escapePair a b out (c # X) = c # escapePair a b out X"
  by (cases X) auto

lemma escapePair_head:
  "out \<noteq> [] \<Longrightarrow> escapePair a b out (d # cs) \<noteq> [] \<and>
     (hd (escapePair a b out (d # cs)) = d \<or> hd (escapePair a b out (d # cs)) = hd out)"
  by (cases cs) auto

lemma escapePair_step:
  assumes out1: "out1 \<noteq> []" "a \<notin> set out1" "hd out1 \<noteq> b2"
  shows "\<not> (c = a \<and> d = b1) \<Longrightarrow> \<not> (c = a \<and> d = b2) \<Longrightarrow>
     escapePair a b2 out2 (c # escapePair a b1 out1 (d # cs))
     = c # escapePair a b2 out2 (escapePair a b1 out1 (d # cs))"
proof -
  assume n1: "\<not> (c = a \<and> d = b1)" and n2: "\<not> (c = a \<and> d = b2)"
  let ?X = "escapePair a b1 out1 (d # cs)"
  from escapePair_head[OF out1(1), of a b1 d cs]
  have X: "?X \<noteq> []" "hd ?X = d \<or> hd ?X = hd out1" by auto
  show ?thesis
  proof (cases "c = a")
    case False
    then show ?thesis by (intro escapePair_cons) simp
  next
    case True
    with n2 have "d \<noteq> b2" by simp
    with X out1 have "hd ?X \<noteq> b2" by auto
    then show ?thesis by (intro escapePair_cons) simp
  qed
qed

text \<open>Two replacements of pairs with the same first code unit commute when neither
  replacement text can take part in a match of the other.\<close>

lemma escapePair_commute:
  assumes o1: "out1 \<noteq> []" "a \<notin> set out1" "hd out1 \<noteq> b2"
      and o2: "out2 \<noteq> []" "a \<notin> set out2" "hd out2 \<noteq> b1"
      and ne: "b1 \<noteq> b2" "a \<noteq> b1" "a \<noteq> b2"
  shows "escapePair a b2 out2 (escapePair a b1 out1 s) =
         escapePair a b1 out1 (escapePair a b2 out2 s)"
proof (induction s rule: length_induct)
  case (1 s)
  note IH = 1[rule_format]
  show ?case
  proof (cases s)
    case Nil
    then show ?thesis by simp
  next
    case (Cons c s')
    note s = this
    show ?thesis
    proof (cases s')
      case Nil
      with s show ?thesis by simp
    next
      case (Cons d cs)
      note s' = this
      have IHcs: "escapePair a b2 out2 (escapePair a b1 out1 cs)
                  = escapePair a b1 out1 (escapePair a b2 out2 cs)"
        by (rule IH) (simp add: s s')
      have IHd: "escapePair a b2 out2 (escapePair a b1 out1 (d # cs))
                 = escapePair a b1 out1 (escapePair a b2 out2 (d # cs))"
        by (rule IH) (simp add: s s')
      consider (p1) "c = a" "d = b1" | (p2) "c = a" "d = b2"
        | (no) "\<not> (c = a \<and> d = b1)" "\<not> (c = a \<and> d = b2)"
        by blast
      then show ?thesis
      proof cases
        case p1
        have l: "escapePair a b1 out1 s = out1 @ escapePair a b1 out1 cs"
          using p1 by (simp add: s s')
        have "escapePair a b2 out2 (d # cs) = d # escapePair a b2 out2 cs"
          using p1 ne by (intro escapePair_cons) simp
        then have r: "escapePair a b2 out2 s = c # d # escapePair a b2 out2 cs"
          using p1 ne by (simp add: s s')
        have "escapePair a b2 out2 (escapePair a b1 out1 s)
              = out1 @ escapePair a b2 out2 (escapePair a b1 out1 cs)"
          unfolding l using o1 by (intro escapePair_append)
        also have "\<dots> = escapePair a b1 out1 (escapePair a b2 out2 s)"
          unfolding r using p1 IHcs by simp
        finally show ?thesis .
      next
        case p2
        have l: "escapePair a b2 out2 s = out2 @ escapePair a b2 out2 cs"
          using p2 by (simp add: s s')
        have "escapePair a b1 out1 (d # cs) = d # escapePair a b1 out1 cs"
          using p2 ne by (intro escapePair_cons) simp
        then have r: "escapePair a b1 out1 s = c # d # escapePair a b1 out1 cs"
          using p2 ne by (simp add: s s')
        have "escapePair a b1 out1 (escapePair a b2 out2 s)
              = out2 @ escapePair a b1 out1 (escapePair a b2 out2 cs)"
          unfolding l using o2 by (intro escapePair_append)
        also have "\<dots> = escapePair a b2 out2 (escapePair a b1 out1 s)"
          unfolding r using p2 IHcs by simp
        finally show ?thesis by simp
      next
        case no
        have l: "escapePair a b1 out1 s = c # escapePair a b1 out1 (d # cs)"
          using no by (auto simp add: s s')
        have r: "escapePair a b2 out2 s = c # escapePair a b2 out2 (d # cs)"
          using no by (auto simp add: s s')
        have "escapePair a b2 out2 (escapePair a b1 out1 s)
              = c # escapePair a b2 out2 (escapePair a b1 out1 (d # cs))"
          unfolding l using no o1 by (intro escapePair_step)
        also have "\<dots> = c # escapePair a b1 out1 (escapePair a b2 out2 (d # cs))"
          using IHd by simp
        also have "\<dots> = escapePair a b1 out1 (escapePair a b2 out2 s)"
          unfolding r using no o2 by (intro escapePair_step[symmetric])
        finally show ?thesis .
      qed
    qed
  qed
qed

lemma BSL_neq [simp]:
  "BSL \<noteq> CHR ''&''" "BSL \<noteq> CHR '';''" "BSL \<noteq> CHR ''#''" "BSL \<noteq> CHR ''1''"
  "BSL \<noteq> CHR ''2''" "BSL \<noteq> CHR ''4''" "BSL \<noteq> CHR ''5''" "BSL \<noteq> CHR ''8''"
  "BSL \<noteq> CHR ''|''" "BSL \<noteq> CHR '':''"
  by (simp_all add: BSL_def)

lemma escapeBoth_pairs:
  "escapePair BSL (CHR '':'') ''&#58;'' (escapePair BSL (CHR ''|'') ''&#124;'' s) = escapeBoth s"
proof (induction s rule: length_induct)
  case (1 s)
  note IH = 1[rule_format]
  show ?case
  proof (cases s)
    case Nil
    then show ?thesis by simp
  next
    case (Cons c s')
    note s = this
    show ?thesis
    proof (cases s')
      case Nil
      with s show ?thesis by simp
    next
      case (Cons d cs)
      note s' = this
      have IHcs: "escapePair BSL (CHR '':'') ''&#58;'' (escapePair BSL (CHR ''|'') ''&#124;'' cs)
                  = escapeBoth cs"
        by (rule IH) (simp add: s s')
      have IHd: "escapePair BSL (CHR '':'') ''&#58;'' (escapePair BSL (CHR ''|'') ''&#124;'' (d # cs))
                 = escapeBoth (d # cs)"
        by (rule IH) (simp add: s s')
      consider (p1) "c = BSL" "d = CHR ''|''" | (p2) "c = BSL" "d = CHR '':''"
        | (no) "\<not> (c = BSL \<and> d = CHR ''|'')" "\<not> (c = BSL \<and> d = CHR '':'')"
        by blast
      then show ?thesis
      proof cases
        case p1
        have l: "escapePair BSL (CHR ''|'') ''&#124;'' s
                 = ''&#124;'' @ escapePair BSL (CHR ''|'') ''&#124;'' cs"
          using p1 by (simp add: s s')
        have "escapePair BSL (CHR '':'') ''&#58;'' (escapePair BSL (CHR ''|'') ''&#124;'' s)
              = ''&#124;''
                @ escapePair BSL (CHR '':'') ''&#58;'' (escapePair BSL (CHR ''|'') ''&#124;'' cs)"
          unfolding l by (intro escapePair_append) simp_all
        also have "\<dots> = escapeBoth s"
          using p1 IHcs by (simp add: s s')
        finally show ?thesis .
      next
        case p2
        have "escapePair BSL (CHR ''|'') ''&#124;'' (d # cs)
              = d # escapePair BSL (CHR ''|'') ''&#124;'' cs"
          using p2 by (intro escapePair_cons) (simp add: BSL_def)
        then have l: "escapePair BSL (CHR ''|'') ''&#124;'' s
                      = c # d # escapePair BSL (CHR ''|'') ''&#124;'' cs"
          using p2 by (simp add: s s')
        show ?thesis
          unfolding l using p2 IHcs by (simp add: s s')
      next
        case no
        have l: "escapePair BSL (CHR ''|'') ''&#124;'' s
                 = c # escapePair BSL (CHR ''|'') ''&#124;'' (d # cs)"
          using no by (auto simp add: s s')
        have "escapePair BSL (CHR '':'') ''&#58;'' (escapePair BSL (CHR ''|'') ''&#124;'' s)
              = c # escapePair BSL (CHR '':'') ''&#58;''
                      (escapePair BSL (CHR ''|'') ''&#124;'' (d # cs))"
          unfolding l using no by (intro escapePair_step) simp_all
        also have "\<dots> = escapeBoth s"
          using no IHd by (auto simp add: s s')
        finally show ?thesis .
      qed
    qed
  qed
qed

text \<open>
  C7: the escape normalizer changes a text in nothing but its escaped delimiters: its
  output is the text with every backslash-pipe replaced by \<^verbatim>\<open>&#124;\<close> and every
  backslash-colon replaced by \<^verbatim>\<open>&#58;\<close>, every other code unit kept; and the two
  substitutions give the same result in the other order.
\<close>

theorem processEscapes_two_substitutions:
  "processEscapes text = escapeBoth text \<and>
   replace_all (Lit [BSL, CHR ''|'']) (\<lambda>m cs. ''&#124;'')
     (replace_all (Lit [BSL, CHR '':'']) (\<lambda>m cs. ''&#58;'') text) = processEscapes text"
proof
  show "processEscapes text = escapeBoth text"
    by (simp add: processEscapes_def replace_all_pair escapeBoth_pairs)
  show "replace_all (Lit [BSL, CHR ''|'']) (\<lambda>m cs. ''&#124;'')
          (replace_all (Lit [BSL, CHR '':'']) (\<lambda>m cs. ''&#58;'') text) = processEscapes text"
    unfolding processEscapes_def replace_all_pair
    by (rule escapePair_commute) simp_all
qed

theorem processEscapes_two_substitutions_witness:
  "processEscapes (''a'' @ [BSL] @ ''|b'' @ [BSL] @ '':c'' @ [BSL] @ ''d'')
   = ''a&#124;b&#58;c'' @ [BSL] @ ''d''"
  using processEscapes_two_substitutions[of "''a'' @ [BSL] @ ''|b'' @ [BSL] @ '':c'' @ [BSL] @ ''d''"]
  by (simp add: BSL_def)

section \<open>Hash blocks: storage and restoration\<close>



lemma single_Digit: "single Digit is_digit"
  by (simp add: Digit_def single_Cls)

lemma not_digit_X: "\<not> is_digit (CHR ''X'')"
  by (simp add: is_digit_def)

lemma ms_Lit_open:
  "ms (Lit ''<p>~X'') st =
     (if prefix ''<p>~X'' (rest st) then [MState (Some CHR ''X'') (drop 5 (rest st)) (caps st)] else [])"
  by (simp add: ms_Lit eval_nat_numeral)

lemma ms_Lit_close:
  "ms (Lit ''X</p>'') st =
     (if prefix ''X</p>'' (rest st) then [MState (Some CHR ''>'') (drop 5 (rest st)) (caps st)] else [])"
  by (simp add: ms_Lit eval_nat_numeral)

lemma ms_placeholder:
  "ms placeholderPattern st =
     (case match_ph (rest st) of
        None \<Rightarrow> []
      | Some (ds, r) \<Rightarrow> [MState (Some (CHR ''>'')) r ((caps st)(1 \<mapsto> ds))])"
proof (cases "prefix ''<p>~X'' (rest st)")
  case False
  then show ?thesis by (simp add: placeholderPattern_def ms_Lit_open match_ph_def)
next
  case True
  define st1 where "st1 = MState (Some (CHR ''X'')) (drop 5 (rest st)) (caps st)"
  define t where "t = drop 5 (rest st)"
  define b where "b = Lit ''X</p>''"
  define g where "g = (\<lambda>st'. MState (prev st') (rest st')
                  ((caps st')(1 \<mapsto> take (length (rest st1) - length (rest st')) (rest st1))))"
  have 1: "ms placeholderPattern st = concat (map (ms b) (ms (Grp 1 (Plus Digit)) st1))"
    using True by (simp add: placeholderPattern_def ms_Lit_open st1_def b_def)
  show ?thesis
  proof (cases t)
    case Nil
    then have "ms (Grp 1 (Plus Digit)) st1 = []"
      by (simp add: Plus_def Digit_def st1_def t_def)
    with 1 Nil True show ?thesis by (simp add: match_ph_def t_def)
  next
    case (Cons x xs)
    show ?thesis
    proof (cases "is_digit x")
      case False
      then have "ms (Grp 1 (Plus Digit)) st1 = []"
        using Cons by (simp add: Plus_def Digit_def st1_def t_def)
      with 1 Cons True False show ?thesis by (simp add: match_ph_def t_def)
    next
      case dx: True
      define st2 where "st2 = MState (Some x) xs (caps st)"
      define n where "n = length (takeWhile is_digit xs)"
      have "ms (Plus Digit) st1 = ms (Star Digit) st2"
        using Cons dx by (simp add: Plus_def Digit_def st1_def t_def st2_def)
      also have "\<dots> = map (\<lambda>k. adv k st2) (rev [0..<Suc n])"
        by (simp add: ms_Star_single[OF single_Digit] n_def st2_def)
      finally have 2: "ms (Grp 1 (Plus Digit)) st1 = map g (map (\<lambda>k. adv k st2) (rev [0..<Suc n]))"
        by (simp add: g_def)
      have "concat (map (ms b) (ms (Grp 1 (Plus Digit)) st1))
            = concat (map (ms b \<circ> g) (map (\<lambda>k. adv k st2) (rev [0..<Suc n])))"
        unfolding 2 by (simp add: comp_def)
      also have "\<dots> = (ms b \<circ> g) (adv n st2)"
      proof (rule greedy_only)
        fix k assume "k < n"
        then obtain y ys where "drop k xs = y # ys" "is_digit y"
          using hd_drop_takeWhile[of k is_digit xs] by (auto simp: n_def)
        then show "(ms b \<circ> g) (adv k st2) = []"
          using not_digit_X by (auto simp add: b_def g_def ms_Lit_close st2_def)
      qed
      finally have 3: "ms placeholderPattern st = ms b (g (adv n st2))"
        using 1 by simp
      have tw: "takeWhile is_digit t = x # takeWhile is_digit xs"
        and dw: "dropWhile is_digit t = dropWhile is_digit xs"
        using Cons dx by simp_all
      have dn: "drop n xs = dropWhile is_digit xs"
        by (simp add: n_def dropWhile_eq_drop)
      have tk: "take (Suc n) t = x # takeWhile is_digit xs"
        using Cons by (simp add: n_def takeWhile_eq_take[symmetric])
      have len: "length (rest st1) - length (rest (adv n st2)) = Suc n"
      proof -
        have "n \<le> length xs" by (simp add: n_def length_takeWhile_le)
        then show ?thesis using Cons by (simp add: st1_def st2_def t_def[symmetric])
      qed
      have gst: "g (adv n st2) = MState (prev (adv n st2)) (dropWhile is_digit xs)
                                  ((caps st)(1 \<mapsto> x # takeWhile is_digit xs))"
        unfolding g_def len using tk dn by (simp add: st1_def t_def[symmetric] st2_def)
      have mp: "match_ph (rest st) =
                  (if prefix ''X</p>'' (dropWhile is_digit xs)
                   then Some (x # takeWhile is_digit xs, drop 5 (dropWhile is_digit xs)) else None)"
        using True by (simp add: match_ph_def t_def[symmetric] tw dw Let_def)
      show ?thesis
        unfolding 3 gst mp by (simp add: b_def ms_Lit_close)
    qed
  qed
qed



lemma takeWhile_digits_X:
  "list_all is_digit ds \<Longrightarrow> takeWhile is_digit (ds @ CHR ''X'' # rr) = ds"
  by (induction ds) (auto simp: is_digit_def)

lemma dropWhile_digits_X:
  "list_all is_digit ds \<Longrightarrow> dropWhile is_digit (ds @ CHR ''X'' # rr) = CHR ''X'' # rr"
  by (induction ds) (auto simp: is_digit_def)

lemma match_ph_iff:
  "match_ph s = Some (ds, r) \<longleftrightarrow> digits ds \<and> s = placeholder ds @ r"
proof
  assume m: "match_ph s = Some (ds, r)"
  define t where "t = drop 5 s"
  from m have p: "prefix ''<p>~X'' s"
    by (auto simp: match_ph_def split: if_splits)
  then have s: "s = ''<p>~X'' @ t"
    unfolding t_def by (auto simp: prefix_def)
  from m p have ds: "ds = takeWhile is_digit t" "ds \<noteq> []"
    and px: "prefix ''X</p>'' (dropWhile is_digit t)" and r: "r = drop 5 (dropWhile is_digit t)"
    by (auto simp: match_ph_def Let_def t_def split: if_splits)
  from px r have "dropWhile is_digit t = ''X</p>'' @ r"
    by (auto simp: prefix_def)
  then have "t = ds @ ''X</p>'' @ r"
    using takeWhile_dropWhile_id[of is_digit t] ds by simp
  moreover have "list_all is_digit ds"
    unfolding ds by (simp add: list_all_iff) (meson set_takeWhileD)
  ultimately show "digits ds \<and> s = placeholder ds @ r"
    using s ds by (simp add: digits_def placeholder_def)
next
  assume a: "digits ds \<and> s = placeholder ds @ r"
  then have s: "s = ''<p>~X'' @ ds @ ''X</p>'' @ r" and d: "ds \<noteq> []" "list_all is_digit ds"
    by (simp_all add: digits_def placeholder_def)
  show "match_ph s = Some (ds, r)"
    unfolding s match_ph_def using d
    by (simp add: takeWhile_digits_X dropWhile_digits_X Let_def)
qed

lemma takeWhile_until:
  "c \<notin> set A \<Longrightarrow> takeWhile (\<lambda>x. x \<noteq> c) (A @ c # B) = A"
  by (induction A) auto

lemma unique_occurrence:
  assumes "c \<notin> set A" "c \<notin> set B" "A @ c # B = U @ c # W"
  shows "U = A \<and> W = B"
proof -
  have "c \<notin> set U"
  proof
    assume "c \<in> set U"
    then obtain U1 U2 where U: "U = U1 @ c # U2" "c \<notin> set U1"
      by (meson split_list_first)
    then have "A @ c # B = U1 @ c # (U2 @ c # W)" using assms(3) by simp
    then have "takeWhile (\<lambda>x. x \<noteq> c) (A @ c # B) = takeWhile (\<lambda>x. x \<noteq> c) (U1 @ c # (U2 @ c # W))"
      by simp
    then have "A = U1" using assms(1) U(2) by (simp add: takeWhile_until)
    then have "B = U2 @ c # W" using \<open>A @ c # B = U1 @ c # (U2 @ c # W)\<close> by simp
    then show False using assms(2) by simp
  qed
  have "takeWhile (\<lambda>x. x \<noteq> c) (A @ c # B) = takeWhile (\<lambda>x. x \<noteq> c) (U @ c # W)"
    using assms(3) by simp
  then have "A = U" using assms(1) \<open>c \<notin> set U\<close> by (simp add: takeWhile_until)
  then show ?thesis using assms(3) by simp
qed

text \<open>A match cannot start before a text that begins with \<open><p\<close> and end inside it.\<close>

lemma no_straddle:
  assumes "digits ds" "u \<noteq> []" "w \<noteq> []" "u @ w = placeholder ds" "prefix w v" "prefix ''<p'' v"
  shows False
proof -
  from assms(3,5,6) obtain w' where w: "w = CHR ''<'' # w'"
    by (cases w; cases v) (auto simp: prefix_def)
  from assms(2,4) obtain u' where u: "u = CHR ''<'' # u'"
    by (cases u) (auto simp: placeholder_def)
  have d: "CHR ''<'' \<notin> set ds"
    using assms(1) by (auto simp: digits_def list_all_iff is_digit_def)
  have "(''p>~X'' @ ds @ ''X'') @ CHR ''<'' # ''/p>'' = u' @ CHR ''<'' # w'"
    using assms(4) u w by (simp add: placeholder_def)
  then have "w' = ''/p>''"
    using unique_occurrence[of "CHR ''<''" "''p>~X'' @ ds @ ''X''" "''/p>''" u' w'] d by simp
  with w assms(5,6) show False
    by (cases v) (auto simp: prefix_def)
qed

lemma match_ph_mono:
  "match_ph u = Some (ds, r) \<Longrightarrow> match_ph (u @ v) = Some (ds, r @ v)"
  by (simp add: match_ph_iff)

lemma match_ph_within:
  assumes "prefix ''<p'' v" "u \<noteq> []" "match_ph (u @ v) = Some (ds, r)"
  shows "\<exists>r'. r = r' @ v \<and> match_ph u = Some (ds, r')"
proof -
  from assms(3) have d: "digits ds" and e: "u @ v = placeholder ds @ r"
    by (simp_all add: match_ph_iff)
  from e consider (a) w where "u = placeholder ds @ w" "r = w @ v"
    | (b) w where "u @ w = placeholder ds" "v = w @ r" "w \<noteq> []"
    by (auto simp: append_eq_append_conv2) (metis append.right_neutral)
  then show ?thesis
  proof cases
    case a
    then show ?thesis using d by (auto simp: match_ph_iff)
  next
    case b
    from no_straddle[OF d assms(2) b(3) b(1) _ assms(1)] b(2) show ?thesis
      by (simp add: prefix_def)
  qed
qed

lemma length_placeholder: "length (placeholder ds) = length ds + 10"
  by (simp add: placeholder_def)

lemma scan_placeholder:
  "scan placeholderPattern p s =
     (case match_ph s of
        None \<Rightarrow> (case s of [] \<Rightarrow> [] | c # cs \<Rightarrow> Raw c # scan placeholderPattern (Some c) cs)
      | Some (ds, r) \<Rightarrow>
          Hit (placeholder ds) [1 \<mapsto> ds] # scan placeholderPattern (Some CHR ''>'') r)"
proof (cases "match_ph s")
  case None
  then show ?thesis
    by (subst scan.simps) (simp add: re_exec_def ms_placeholder)
next
  case (Some a)
  obtain ds r where a: "a = (ds, r)" by (cases a)
  with Some have s: "s = placeholder ds @ r" by (simp add: match_ph_iff)
  have e: "re_exec placeholderPattern p s = Some (MState (Some CHR ''>'') r [1 \<mapsto> ds])"
    by (simp add: re_exec_def ms_placeholder Some a)
  have l: "length r < length s" by (simp add: s length_placeholder)
  have t: "take (length s - length r) s = placeholder ds" by (simp add: s)
  show ?thesis
    by (subst scan.simps) (simp add: e l t Some a)
qed

lemma scan_placeholder_prev:
  "scan placeholderPattern p s = scan placeholderPattern q s"
  by (subst scan_placeholder, subst (2) scan_placeholder) simp

lemma scan_placeholder_split:
  assumes v: "prefix ''<p'' v"
  shows "scan placeholderPattern p (u @ v) = scan placeholderPattern p u @ scan placeholderPattern q v"
proof (induction u arbitrary: p rule: length_induct)
  case (1 u)
  note IH = 1[rule_format]
  show ?case
  proof (cases u)
    case Nil
    then show ?thesis
      using scan_placeholder_prev[of p v q] by (simp add: scan_placeholder[of p "[]"] match_ph_def)
  next
    case (Cons c cs)
    show ?thesis
    proof (cases "match_ph (u @ v)")
      case None
      then have n: "match_ph u = None"
        using match_ph_mono[of u _ _ v] by (cases "match_ph u") auto
      have A: "scan placeholderPattern p (u @ v) = Raw c # scan placeholderPattern (Some c) (cs @ v)"
        using scan_placeholder[of p "u @ v"] None Cons by simp
      have B: "scan placeholderPattern p u = Raw c # scan placeholderPattern (Some c) cs"
        using scan_placeholder[of p u] n Cons by simp
      show ?thesis
        unfolding A B using IH[of cs "Some c"] Cons by simp
    next
      case (Some a)
      obtain ds r where a: "a = (ds, r)" by (cases a)
      from match_ph_within[OF v _ Some[unfolded a]] Cons
      obtain r' where r: "r = r' @ v" "match_ph u = Some (ds, r')" by auto
      then have "length r' < length u" by (auto simp: match_ph_iff placeholder_def)
      note IH' = IH[OF this, of "Some CHR ''>''"]
      have A: "scan placeholderPattern p (u @ v)
               = Hit (placeholder ds) [1 \<mapsto> ds] # scan placeholderPattern (Some CHR ''>'') (r' @ v)"
        using scan_placeholder[of p "u @ v"] Some a r by simp
      have B: "scan placeholderPattern p u
               = Hit (placeholder ds) [1 \<mapsto> ds] # scan placeholderPattern (Some CHR ''>'') r'"
        using scan_placeholder[of p u] r by simp
      show ?thesis
        unfolding A B using IH' by simp
    qed
  qed
qed



lemma parseInt_digits: "digits ds \<Longrightarrow> parseInt ds = Some (digits_val ds)"
  by (simp add: parseInt_def digits_def digits_val_def list_all_iff Let_def
        takeWhile_eq_all_conv[THEN iffD2])

text \<open>Restoration replaces one placeholder and treats the text before and the text after
  on their own.\<close>

lemma unHash_placeholder:
  assumes "digits ds"
  shows "unHashExtraBlocks self (pre @ placeholder ds @ post)
         = unHashExtraBlocks self pre @ stored self (digits_val ds) @ unHashExtraBlocks self post"
proof -
  have v: "prefix ''<p'' (placeholder ds @ post)"
    by (simp add: placeholder_def)
  have m: "match_ph (placeholder ds @ post) = Some (ds, post)"
    using assms by (simp add: match_ph_iff)
  have "scan placeholderPattern None (pre @ placeholder ds @ post)
        = scan placeholderPattern None pre @ scan placeholderPattern None (placeholder ds @ post)"
    by (rule scan_placeholder_split[OF v])
  also have "scan placeholderPattern None (placeholder ds @ post)
        = Hit (placeholder ds) [1 \<mapsto> ds] # scan placeholderPattern None post"
    by (subst scan_placeholder) (simp add: m scan_placeholder_prev[of "Some CHR ''>''" post None])
  finally show ?thesis
    using parseInt_digits[OF assms]
    by (simp add: unHashExtraBlocks_def replace_all_def subst_append js_str_def js_nth_def stored_def)
qed









lemma digit_char_digit: "d < 10 \<Longrightarrow> is_digit (digit_char d) \<and> digit_val (digit_char d) = d"
  by (simp add: is_digit_def digit_char_def digit_val_def)

lemma show_nat_digits: "digits (show_nat n) \<and> digits_val (show_nat n) = n"
proof (induction n rule: show_nat.induct)
  case (1 n)
  show ?case
  proof (cases "n < 10")
    case True
    then show ?thesis
      by (subst show_nat.simps, subst (2) show_nat.simps)
         (simp add: digits_def digits_val_def digit_char_digit)
  next
    case False
    have d: "is_digit (digit_char (n mod 10))" "digit_val (digit_char (n mod 10)) = n mod 10"
      using digit_char_digit[of "n mod 10"] by simp_all
    from 1 False have IH: "digits (show_nat (n div 10))" "digits_val (show_nat (n div 10)) = n div 10"
      by simp_all
    have s: "show_nat n = show_nat (n div 10) @ [digit_char (n mod 10)]"
      using False by (subst show_nat.simps) simp
    show ?thesis
      unfolding s using IH d by (simp add: digits_def digits_val_def)
  qed
qed

lemma hashExtraBlock_eq:
  "hashExtraBlock block self =
     (placeholder (show_nat (length (hashBlocks self))), self\<lparr>hashBlocks := hashBlocks self @ [block]\<rparr>)"
  by (simp add: hashExtraBlock_def placeholder_def)

lemma storeAll_eq:
  "storeAll bs self =
     (map (\<lambda>i. placeholder (show_nat (length (hashBlocks self) + i))) [0..<length bs],
      self\<lparr>hashBlocks := hashBlocks self @ bs\<rparr>)"
proof (induction bs arbitrary: self)
  case Nil
  then show ?case by simp
next
  case (Cons b bs)
  have "[0..<length (b # bs)] = 0 # map Suc [0..<length bs]"
    by (simp add: upt_conv_Cons map_Suc_upt del: upt_Suc)
  then show ?case
    by (simp add: hashExtraBlock_eq Cons comp_def del: upt_Suc)
qed

lemma unHash_stored:
  assumes "i < length (hashBlocks self)"
  shows "unHashExtraBlocks self (pre @ placeholder (show_nat i) @ post)
         = unHashExtraBlocks self pre @ hashBlocks self ! i @ unHashExtraBlocks self post"
  using unHash_placeholder[of "show_nat i" self pre post] show_nat_digits[of i] assms
  by (simp add: stored_def)

lemma unHash_weave:
  assumes "list_all (\<lambda>(i, s). i < length (hashBlocks self)) items"
  shows "unHashExtraBlocks self (weave (\<lambda>i. placeholder (show_nat i)) s0 items)
         = weave (\<lambda>i. hashBlocks self ! i) (unHashExtraBlocks self s0)
                 (map (\<lambda>(i, s). (i, unHashExtraBlocks self s)) items)"
  using assms
proof (induction items arbitrary: s0)
  case Nil
  then show ?case by simp
next
  case (Cons a items)
  obtain i s where a: "a = (i, s)" by (cases a)
  with Cons.prems have i: "i < length (hashBlocks self)"
    and r: "list_all (\<lambda>(i, s). i < length (hashBlocks self)) items" by simp_all
  show ?case
    using unHash_stored[OF i] Cons.IH[OF r] by (simp add: a)
qed



text \<open>
  C1, amended: each call of \<^verbatim>\<open>hashExtraBlock\<close> returns the placeholder of the next index,
  counted from 0, and appends the block, so a session's calls store its blocks in order
  under the indices 0, 1, ...; in a text that embeds placeholders of stored indices in
  any surrounding text, \<^verbatim>\<open>unHashExtraBlocks\<close> puts the stored block, verbatim, in the place
  of each embedded placeholder, and treats the pieces of surrounding text on their own; a
  text without a placeholder is left as it is, so a second restoration changes nothing
  whenever the restored text holds no placeholder; and \<^verbatim>\<open>finishConversion\<close> returns the
  restored text and leaves the store empty.
\<close>

theorem hash_blocks_round_trip:
  "hashExtraBlock block self
     = (placeholder (show_nat (length (hashBlocks self))),
        self\<lparr>hashBlocks := hashBlocks self @ [block]\<rparr>)
   \<and> storeAll blocks (self\<lparr>hashBlocks := []\<rparr>)
     = (map (\<lambda>i. placeholder (show_nat i)) [0..<length blocks], self\<lparr>hashBlocks := blocks\<rparr>)
   \<and> (list_all (\<lambda>(i, s). i < length (hashBlocks self)) items \<longrightarrow>
        unHashExtraBlocks self (weave (\<lambda>i. placeholder (show_nat i)) s0 items)
        = weave (\<lambda>i. hashBlocks self ! i) (unHashExtraBlocks self s0)
                (map (\<lambda>(i, s). (i, unHashExtraBlocks self s)) items))
   \<and> (\<not> re_test placeholderPattern text \<longrightarrow> unHashExtraBlocks self text = text)
   \<and> (\<not> re_test placeholderPattern (unHashExtraBlocks self text) \<longrightarrow>
        unHashExtraBlocks self (unHashExtraBlocks self text) = unHashExtraBlocks self text)
   \<and> finishConversion self text = (unHashExtraBlocks self text, self\<lparr>hashBlocks := []\<rparr>)"
proof (intro conjI impI)
  show "hashExtraBlock block self
     = (placeholder (show_nat (length (hashBlocks self))),
        self\<lparr>hashBlocks := hashBlocks self @ [block]\<rparr>)"
    by (rule hashExtraBlock_eq)
  show "storeAll blocks (self\<lparr>hashBlocks := []\<rparr>)
     = (map (\<lambda>i. placeholder (show_nat i)) [0..<length blocks], self\<lparr>hashBlocks := blocks\<rparr>)"
    by (simp add: storeAll_eq)
  show "unHashExtraBlocks self (weave (\<lambda>i. placeholder (show_nat i)) s0 items)
        = weave (\<lambda>i. hashBlocks self ! i) (unHashExtraBlocks self s0)
                (map (\<lambda>(i, s). (i, unHashExtraBlocks self s)) items)"
    if "list_all (\<lambda>(i, s). i < length (hashBlocks self)) items"
    using that by (rule unHash_weave)
  show "unHashExtraBlocks self text = text" if "\<not> re_test placeholderPattern text"
    using that by (simp add: unHashExtraBlocks_def replace_all_no_match)
  show "unHashExtraBlocks self (unHashExtraBlocks self text) = unHashExtraBlocks self text"
    if "\<not> re_test placeholderPattern (unHashExtraBlocks self text)"
    using that by (simp add: unHashExtraBlocks_def replace_all_no_match)
  show "finishConversion self text = (unHashExtraBlocks self text, self\<lparr>hashBlocks := []\<rparr>)"
    by (simp add: finishConversion_def)
qed

theorem hash_blocks_round_trip_witness:
  "unHashExtraBlocks (snd (storeAll [''<b>x</b>'', ''<i>y</i>''] (newExtra (\<lambda>s. s))))
     ''a<p>~X1X</p>b<p>~X0X</p>c'' = ''a<i>y</i>b<b>x</b>c''
   \<and> unHashExtraBlocks (snd (storeAll [''<b>x</b>'', ''<i>y</i>''] (newExtra (\<lambda>s. s))))
     ''a<i>y</i>b<b>x</b>c'' = ''a<i>y</i>b<b>x</b>c''"
proof -
  define S where "S = snd (storeAll [''<b>x</b>'', ''<i>y</i>''] (newExtra (\<lambda>s. s)))"
  have hb: "hashBlocks S = [''<b>x</b>'', ''<i>y</i>'']"
    unfolding S_def by code_simp
  have items: "list_all (\<lambda>(i, s). i < length (hashBlocks S)) [(1, ''b''), (0, ''c'')]"
    by (simp add: hb)
  have free: "\<not> re_test placeholderPattern ''a''" "\<not> re_test placeholderPattern ''b''"
    "\<not> re_test placeholderPattern ''c''" "\<not> re_test placeholderPattern ''a<i>y</i>b<b>x</b>c''"
    by code_simp+
  note T = hash_blocks_round_trip[of _ S _ "[(1, ''b''), (0, ''c'')]" "''a''", THEN conjunct2, THEN conjunct2]
  note N = hash_blocks_round_trip[of _ S, THEN conjunct2, THEN conjunct2, THEN conjunct2, THEN conjunct1, rule_format]
  have w: "weave (\<lambda>i. placeholder (show_nat i)) ''a'' [(1, ''b''), (0, ''c'')] = ''a<p>~X1X</p>b<p>~X0X</p>c''"
    by code_simp
  note W = T[THEN conjunct1, rule_format, OF items, unfolded w]
  show ?thesis
    unfolding S_def[symmetric]
    using W N[OF free(1)] N[OF free(2)] N[OF free(3)] N[OF free(4)]
    by (simp add: hb)
qed

text \<open>
  C1 as stated fails: restoration is not idempotent. With the blocks \<^verbatim>\<open><p>~X1X</p>\<close> and
  \<^verbatim>\<open>b\<close> stored, the placeholder of index 0 restores to the first block, and a second
  restoration turns that into \<^verbatim>\<open>b\<close>.
\<close>

theorem restoration_not_idempotent:
  "unHashExtraBlocks (snd (storeAll [''<p>~X1X</p>'', ''b''] (newExtra (\<lambda>s. s))))
     (unHashExtraBlocks (snd (storeAll [''<p>~X1X</p>'', ''b''] (newExtra (\<lambda>s. s)))) ''<p>~X0X</p>'')
   \<noteq> unHashExtraBlocks (snd (storeAll [''<p>~X1X</p>'', ''b''] (newExtra (\<lambda>s. s)))) ''<p>~X0X</p>''"
  by code_simp

text \<open>
  C5, amended: a placeholder whose digits name no stored block (the index is out of
  range) is replaced by the text \<^verbatim>\<open>undefined\<close>; the call returns a text as for any other
  input, and the text before and after the placeholder is restored as usual.
\<close>

theorem unstored_placeholder_becomes_undefined:
  "digits ds \<Longrightarrow> length (hashBlocks self) \<le> digits_val ds \<Longrightarrow>
   unHashExtraBlocks self (pre @ placeholder ds @ post)
   = unHashExtraBlocks self pre @ ''undefined'' @ unHashExtraBlocks self post"
  using unHash_placeholder[of ds self pre post] by (simp add: stored_def)

theorem unstored_placeholder_becomes_undefined_witness:
  "unHashExtraBlocks (snd (storeAll [''<b>x</b>''] (newExtra (\<lambda>s. s)))) ''a<p>~X7X</p>b'' = ''aundefinedb''"
proof -
  define S where "S = snd (storeAll [''<b>x</b>''] (newExtra (\<lambda>s. s)))"
  have d: "digits ''7''" by code_simp
  have l: "length (hashBlocks S) \<le> digits_val ''7''" unfolding S_def by code_simp
  have a: "unHashExtraBlocks S ''a'' = ''a''" "unHashExtraBlocks S ''b'' = ''b''"
    unfolding S_def by code_simp+
  show ?thesis
    unfolding S_def[symmetric]
    using unstored_placeholder_becomes_undefined[OF d l, of "''a''" "''b''"]
    by (simp add: a placeholder_def)
qed

text \<open>
  C5 as stated fails: with an empty store the text \<^verbatim>\<open><p>~X0X</p>\<close> is not kept; it
  becomes \<^verbatim>\<open>undefined\<close>.
\<close>

theorem unstored_placeholder_not_kept:
  "unHashExtraBlocks (newExtra (\<lambda>s. s)) ''<p>~X0X</p>'' = ''undefined''
   \<and> unHashExtraBlocks (newExtra (\<lambda>s. s)) ''<p>~X0X</p>'' \<noteq> ''<p>~X0X</p>''"
  by code_simp

section \<open>The whitelist filter\<close>

lemma single_NotGt: "single NotGt (\<lambda>x. x \<noteq> CHR ''>'')"
  by (simp add: NotGt_def single_Cls)

lemma dropWhile_NotGt_cases:
  "dropWhile (\<lambda>x. x \<noteq> CHR ''>'') t = [] \<or>
   (\<exists>r. dropWhile (\<lambda>x. x \<noteq> CHR ''>'') t = CHR ''>'' # r)"
  by (induction t) auto

lemma exec_tag_None: "match_tag s = None \<Longrightarrow> re_exec tagPattern p s = None"
  by (cases s) (auto simp: match_tag_def re_exec_def tagPattern_def split: if_splits)

lemma match_tag_Some:
  "match_tag s = Some (tag, r) \<Longrightarrow>
   \<exists>t. s = CHR ''<'' # t \<and>
       tag = CHR ''<'' # takeWhile (\<lambda>x. x \<noteq> CHR ''>'') t
                         @ take 1 (dropWhile (\<lambda>x. x \<noteq> CHR ''>'') t) \<and>
       r = drop 1 (dropWhile (\<lambda>x. x \<noteq> CHR ''>'') t)"
  by (cases s) (auto simp: match_tag_def split: if_splits)

lemma match_tag_append: "match_tag s = Some (tag, r) \<Longrightarrow> s = tag @ r"
proof -
  assume "match_tag s = Some (tag, r)"
  from match_tag_Some[OF this] obtain t where
    s: "s = CHR ''<'' # t"
    and tag: "tag = CHR ''<'' # takeWhile (\<lambda>x. x \<noteq> CHR ''>'') t
                         @ take 1 (dropWhile (\<lambda>x. x \<noteq> CHR ''>'') t)"
    and r: "r = drop 1 (dropWhile (\<lambda>x. x \<noteq> CHR ''>'') t)" by blast
  have "t = takeWhile (\<lambda>x. x \<noteq> CHR ''>'') t @ dropWhile (\<lambda>x. x \<noteq> CHR ''>'') t" by simp
  also have "dropWhile (\<lambda>x. x \<noteq> CHR ''>'') t
             = take 1 (dropWhile (\<lambda>x. x \<noteq> CHR ''>'') t) @ drop 1 (dropWhile (\<lambda>x. x \<noteq> CHR ''>'') t)"
    by simp
  finally show ?thesis unfolding s tag r by simp
qed

lemma exec_tag_Some:
  assumes "match_tag s = Some (tag, r)"
  shows "\<exists>q. re_exec tagPattern p s = Some (MState q r Map.empty)"
proof -
  from match_tag_Some[OF assms] obtain t where
    s: "s = CHR ''<'' # t" and r: "r = drop 1 (dropWhile (\<lambda>x. x \<noteq> CHR ''>'') t)" by blast
  define st1 where "st1 = MState (Some CHR ''<'') t Map.empty"
  define n where "n = length (takeWhile (\<lambda>x. x \<noteq> CHR ''>'') t)"
  define d where "d = dropWhile (\<lambda>x. x \<noteq> CHR ''>'') t"
  obtain tl where tl: "ms (Star NotGt) st1 = adv n st1 # tl"
    using ms_Star_single_hd[OF single_NotGt, of st1] by (auto simp: n_def st1_def)
  have a: "drop n (rest st1) = d"
    by (simp add: st1_def n_def d_def dropWhile_eq_drop)
  have 1: "ms tagPattern (MState p s Map.empty)
           = ms (Opt (Chr CHR ''>'')) (adv n st1) @ concat (map (ms (Opt (Chr CHR ''>''))) tl)"
    by (simp add: s tagPattern_def st1_def[symmetric] tl)
  from dropWhile_NotGt_cases[of t] show ?thesis
  proof
    assume "dropWhile (\<lambda>x. x \<noteq> CHR ''>'') t = []"
    then have d0: "d = []" by (simp add: d_def)
    have "ms (Opt (Chr CHR ''>'')) (adv n st1) = [adv n st1]"
      by (simp add: Opt_def a d0)
    moreover have "adv n st1 = MState (prev (adv n st1)) [] Map.empty"
      by (cases "adv n st1") (use a d0 in \<open>auto simp: adv_def st1_def\<close>)
    ultimately have "re_exec tagPattern p s = Some (MState (prev (adv n st1)) [] Map.empty)"
      using 1 by (simp add: re_exec_def)
    then show ?thesis using d0 by (auto simp: r d_def[symmetric])
  next
    assume "\<exists>r'. dropWhile (\<lambda>x. x \<noteq> CHR ''>'') t = CHR ''>'' # r'"
    then obtain r' where d1: "d = CHR ''>'' # r'" by (auto simp: d_def)
    have "ms (Opt (Chr CHR ''>'')) (adv n st1)
               = [MState (Some CHR ''>'') r' Map.empty, adv n st1]"
      by (simp add: Opt_def a d1) (simp add: st1_def)
    then have "re_exec tagPattern p s = Some (MState (Some CHR ''>'') r' Map.empty)"
      using 1 by (simp add: re_exec_def)
    then show ?thesis using d1 by (auto simp: r d_def[symmetric])
  qed
qed

lemma match_tag_shorter: "match_tag s = Some (tag, r) \<Longrightarrow> length r < length s"
proof -
  assume "match_tag s = Some (tag, r)"
  from match_tag_Some[OF this] obtain t where
    s: "s = CHR ''<'' # t" and r: "r = drop 1 (dropWhile (\<lambda>x. x \<noteq> CHR ''>'') t)" by blast
  have "length (dropWhile (\<lambda>x. x \<noteq> CHR ''>'') t) \<le> length t"
    by (rule length_dropWhile_le)
  then show ?thesis by (simp add: s r)
qed

lemma scan_tag_None:
  "match_tag s = None \<Longrightarrow>
   scan tagPattern p s = (case s of [] \<Rightarrow> [] | c # cs \<Rightarrow> Raw c # scan tagPattern (Some c) cs)"
  by (subst scan.simps) (simp add: exec_tag_None)

lemma scan_tag_Some:
  assumes "match_tag s = Some (tag, r)"
  shows "\<exists>q. scan tagPattern p s = Hit tag Map.empty # scan tagPattern q r"
proof -
  from exec_tag_Some[OF assms] obtain q where
    e: "re_exec tagPattern p s = Some (MState q r Map.empty)" by blast
  have l: "length r < length s" using match_tag_shorter[OF assms] .
  have t: "take (length s - length r) s = tag" using match_tag_append[OF assms] by simp
  have "scan tagPattern p s = Hit tag Map.empty # scan tagPattern q r"
    by (subst scan.simps) (simp add: e l t)
  then show ?thesis by blast
qed

lemma subst_scan_tagPattern:
  "subst (\<lambda>tag cs. if keep tag then tag else []) (scan tagPattern p s) = stripTags keep s"
proof (induction s arbitrary: p rule: length_induct)
  case (1 s)
  note IH = 1[rule_format]
  show ?case
  proof (cases "match_tag s")
    case None
    show ?thesis
    proof (cases s)
      case Nil
      with scan_tag_None[OF None, of p] show ?thesis by simp
    next
      case (Cons c cs)
      with None have c: "c \<noteq> CHR ''<''" by (auto simp: match_tag_def split: if_splits)
      have "subst (\<lambda>tag cs. if keep tag then tag else []) (scan tagPattern (Some c) cs)
            = stripTags keep cs"
        by (rule IH) (simp add: Cons)
      with Cons scan_tag_None[OF None, of p] c show ?thesis by simp
    qed
  next
    case (Some a)
    obtain tag r where a: "a = (tag, r)" by (cases a)
    note m = Some[unfolded a]
    from scan_tag_Some[OF m, of p] obtain q where
      sc: "scan tagPattern p s = Hit tag Map.empty # scan tagPattern q r" by auto
    have l: "length r < length s" using match_tag_shorter[OF m] .
    from match_tag_Some[OF m] obtain t where s: "s = CHR ''<'' # t"
      and tag: "tag = CHR ''<'' # takeWhile (\<lambda>x. x \<noteq> CHR ''>'') t @ take 1 (dropWhile (\<lambda>x. x \<noteq> CHR ''>'') t)"
      and r: "r = drop 1 (dropWhile (\<lambda>x. x \<noteq> CHR ''>'') t)"
      by blast
    have "subst (\<lambda>tag cs. if keep tag then tag else []) (scan tagPattern q r) = stripTags keep r"
      by (rule IH) (rule l)
    then show ?thesis
      unfolding sc by (simp add: s tag r Let_def)
  qed
qed

lemma sanitizeHtml_stripTags:
  "sanitizeHtml html whitelist = stripTags (re_test whitelist) html"
  by (simp add: sanitizeHtml_def replace_all_def subst_scan_tagPattern)

lemma stripTags_plain: "CHR ''<'' \<notin> set pre \<Longrightarrow> stripTags keep (pre @ s) = pre @ stripTags keep s"
  by (induction pre) auto

lemma takeWhile_NotGt: "CHR ''>'' \<notin> set mid \<Longrightarrow> takeWhile (\<lambda>x. x \<noteq> CHR ''>'') (mid @ CHR ''>'' # post) = mid"
  by (induction mid) auto

lemma dropWhile_NotGt: "CHR ''>'' \<notin> set mid \<Longrightarrow> dropWhile (\<lambda>x. x \<noteq> CHR ''>'') (mid @ CHR ''>'' # post) = CHR ''>'' # post"
  by (induction mid) auto

lemma stripTags_closed:
  "CHR ''>'' \<notin> set mid \<Longrightarrow>
   stripTags keep (CHR ''<'' # mid @ CHR ''>'' # post)
   = (if keep (CHR ''<'' # mid @ ''>'') then CHR ''<'' # mid @ ''>'' else []) @ stripTags keep post"
  by (simp add: takeWhile_NotGt dropWhile_NotGt)

lemma stripTags_open:
  assumes "CHR ''>'' \<notin> set mid"
  shows "stripTags keep (CHR ''<'' # mid) = (if keep (CHR ''<'' # mid) then CHR ''<'' # mid else [])"
proof -
  have t: "takeWhile (\<lambda>x. x \<noteq> CHR ''>'') mid = mid"
    using assms by (induction mid) auto
  have d: "dropWhile (\<lambda>x. x \<noteq> CHR ''>'') mid = []"
    using assms by (induction mid) auto
  show ?thesis by (simp add: t d)
qed

lemma needs_inlineTags: "needs (CHR ''>'') inlineTags"
  by (simp add: inlineTags_def)

text \<open>
  C10: the whitelist filter treats every \<^verbatim>\<open><\<close> as the start of a tag. \<^verbatim>\<open>sanitizeHtml\<close>
  is the function that, from each \<^verbatim>\<open><\<close>, takes the text through the next \<^verbatim>\<open>>\<close> (or to
  the end of the text when no \<^verbatim>\<open>>\<close> follows) and deletes it unless it matches the
  whitelist. So after a text without \<^verbatim>\<open><\<close>, a tag closed by \<^verbatim>\<open>>\<close> is kept or deleted
  as a whole; and with the whitelist \<open>inlineTags\<close> an unclosed \<^verbatim>\<open><\<close> removes all the text
  that follows it.
\<close>

theorem sanitizeHtml_deletes_unlisted_tags:
  "sanitizeHtml html whitelist = stripTags (re_test whitelist) html
   \<and> (CHR ''<'' \<notin> set pre \<and> CHR ''>'' \<notin> set mid \<longrightarrow>
        sanitizeHtml (pre @ CHR ''<'' # mid @ CHR ''>'' # post) whitelist
        = pre @ (if re_test whitelist (CHR ''<'' # mid @ ''>'') then CHR ''<'' # mid @ ''>'' else [])
              @ sanitizeHtml post whitelist)
   \<and> (CHR ''<'' \<notin> set pre \<and> CHR ''>'' \<notin> set mid \<longrightarrow>
        sanitizeHtml (pre @ CHR ''<'' # mid) inlineTags = pre)"
proof (intro conjI impI)
  show "sanitizeHtml html whitelist = stripTags (re_test whitelist) html"
    by (rule sanitizeHtml_stripTags)
  show "sanitizeHtml (pre @ CHR ''<'' # mid @ CHR ''>'' # post) whitelist
        = pre @ (if re_test whitelist (CHR ''<'' # mid @ ''>'') then CHR ''<'' # mid @ ''>'' else [])
              @ sanitizeHtml post whitelist"
    if h: "CHR ''<'' \<notin> set pre \<and> CHR ''>'' \<notin> set mid"
  proof -
    from h have p: "CHR ''<'' \<notin> set pre" and m: "CHR ''>'' \<notin> set mid" by simp_all
    show ?thesis
      unfolding sanitizeHtml_stripTags stripTags_plain[OF p] stripTags_closed[OF m] by simp
  qed
  show "sanitizeHtml (pre @ CHR ''<'' # mid) inlineTags = pre"
    if h: "CHR ''<'' \<notin> set pre \<and> CHR ''>'' \<notin> set mid"
  proof -
    have "\<not> re_test inlineTags (CHR ''<'' # mid)"
      using re_test_needs[OF needs_inlineTags, of "CHR ''<'' # mid"] h by auto
    moreover from h have p: "CHR ''<'' \<notin> set pre" and m: "CHR ''>'' \<notin> set mid" by simp_all
    ultimately show ?thesis
      unfolding sanitizeHtml_stripTags stripTags_plain[OF p] stripTags_open[OF m] by simp
  qed
qed

theorem sanitizeHtml_deletes_unlisted_tags_witness:
  "CHR ''<'' \<notin> set ''a'' \<and> CHR ''>'' \<notin> set ''p'' \<and> CHR ''<'' \<notin> set ''b '' \<and> CHR ''>'' \<notin> set '' c''
   \<and> sanitizeHtml ''a<p>b < c'' inlineTags = ''ab ''"
proof -
  have 1: "CHR ''<'' \<notin> set ''a'' \<and> CHR ''>'' \<notin> set ''p''"
    and 2: "CHR ''<'' \<notin> set ''b '' \<and> CHR ''>'' \<notin> set '' c''"
    by simp_all
  note T = sanitizeHtml_deletes_unlisted_tags
  note closed = T[THEN conjunct2, THEN conjunct1, rule_format]
  note unclosed = T[THEN conjunct2, THEN conjunct2, rule_format]
  have w: "\<not> re_test inlineTags ''<p>''"
    by code_simp
  show ?thesis
    using closed[OF 1, of "''b < c''" inlineTags] unclosed[OF 2]
    by (simp add: w)
qed

section \<open>Fenced code blocks\<close>

lemma scan_Chr:
  "scan (Chr c) p s = map (\<lambda>x. if x = c then Hit [x] Map.empty else Raw x) s"
proof (induction s arbitrary: p)
  case Nil
  show ?case by (subst scan.simps) (simp add: re_exec_def)
next
  case (Cons x xs)
  show ?case by (subst scan.simps) (simp add: re_exec_def Cons)
qed

lemma replace_all_Chr:
  "replace_all (Chr c) (\<lambda>m cs. out) s = concat (map (\<lambda>x. if x = c then out else [x]) s)"
  unfolding replace_all_def scan_Chr by (induction s) auto

lemma encodeCode_chars: "encodeCode code = concat (map encodeChar code)"
  unfolding encodeCode_def Let_def replace_all_Chr
  by (induction code) (auto simp: encodeChar_def)

lemma scan_fenceSample:
  "case scan fencePattern None fenceSample of
     [Hit m cs] \<Rightarrow> m = fenceSample \<and> cs 1 = Some ''js'' \<and> cs 2 = Some ''var x = 1 < 2;''
   | _ \<Rightarrow> False"
  by code_simp

lemma scan_fenceSample_ex:
  "\<exists>cs. scan fencePattern None fenceSample = [Hit fenceSample cs]
        \<and> cs 1 = Some ''js'' \<and> cs 2 = Some ''var x = 1 < 2;''"
proof (cases "scan fencePattern None fenceSample")
  case Nil
  with scan_fenceSample show ?thesis by simp
next
  case (Cons a l)
  show ?thesis
  proof (cases a)
    case (Raw c)
    with Cons scan_fenceSample show ?thesis by simp
  next
    case (Hit m cs)
    show ?thesis
    proof (cases l)
      case Nil
      with Cons Hit scan_fenceSample show ?thesis by simp
    next
      case (Cons b l')
      with \<open>scan fencePattern None fenceSample = a # l\<close> Hit scan_fenceSample show ?thesis by simp
    qed
  qed
qed

lemma show_nat_0: "show_nat 0 = ''0''"
  by code_simp

lemma fenceHtml_sample:
  "fenceHtml (initHighlighter (Some ''highlight'') (newExtra mk)) (Some ''js'') ''var x = 1 < 2;''
   = fenceFragment"
  by code_simp

lemma fenceHtml_eq:
  "fenceHtml self language codeblock
   = ''<pre'' @ (if googleCodePrettify self then '' class=\"prettyprint\"'' else [])
     @ ''><code''
     @ (if truthy language
        then (if googleCodePrettify self \<or> highlightJs self
              then '' class=\"language-'' else '' class=\"'')
             @ js_str language @ ''\"''
        else [])
     @ ''>'' @ concat (map encodeChar codeblock) @ ''</code></pre>''"
  by (simp add: fenceHtml_def encodeCode_chars)

text \<open>
  C6: with the highlighter option \<^verbatim>\<open>highlight\<close>, \<^verbatim>\<open>fencedCodeBlocks\<close> replaces the
  sample input by the placeholder of index 0 and stores exactly the fragment
  \<^verbatim>\<open><pre><code class="language-js">var x = 1 &lt; 2;</code></pre>\<close>, which restoration
  then emits. In general the fragment puts the class \<^verbatim>\<open>prettyprint\<close> on \<^verbatim>\<open>pre\<close> in
  prettify mode only, gives \<^verbatim>\<open>code\<close> the class \<^verbatim>\<open>language-\<close> plus the tag in either
  highlighter mode and the bare tag otherwise (no class without a tag), and escapes
  each \<^verbatim>\<open>&\<close>, \<^verbatim>\<open><\<close> and \<^verbatim>\<open>>\<close> of the body once.
\<close>

theorem fenced_code_block_fragment:
  "fencedCodeBlocks (initHighlighter (Some ''highlight'') (newExtra mk)) fenceSample
     = Inr (''<p>~X0X</p>'',
            (initHighlighter (Some ''highlight'') (newExtra mk))\<lparr>hashBlocks := [fenceFragment]\<rparr>)
   \<and> unHashExtraBlocks
         ((initHighlighter (Some ''highlight'') (newExtra mk))\<lparr>hashBlocks := [fenceFragment]\<rparr>)
         ''<p>~X0X</p>'' = fenceFragment
   \<and> fenceHtml self language codeblock
       = ''<pre'' @ (if googleCodePrettify self then '' class=\"prettyprint\"'' else [])
         @ ''><code''
         @ (if truthy language
            then (if googleCodePrettify self \<or> highlightJs self
                  then '' class=\"language-'' else '' class=\"'')
                 @ js_str language @ ''\"''
            else [])
         @ ''>'' @ concat (map encodeChar codeblock) @ ''</code></pre>''
   \<and> encodeCode codeblock = concat (map encodeChar codeblock)"
proof (intro conjI)
  let ?S = "initHighlighter (Some ''highlight'') (newExtra mk)"
  obtain cs where sc: "scan fencePattern None fenceSample = [Hit fenceSample cs]"
    and cs: "cs 1 = Some ''js''" "cs 2 = Some ''var x = 1 < 2;''"
    using scan_fenceSample_ex by blast
  have hb: "hashBlocks ?S = []"
    by (simp add: initHighlighter_def newExtra_def)
  show "fencedCodeBlocks ?S fenceSample = Inr (''<p>~X0X</p>'', ?S\<lparr>hashBlocks := [fenceFragment]\<rparr>)"
    unfolding fencedCodeBlocks_def replace_all_st_def sc
    by (simp add: fenceBlock_def cs(1)[simplified] cs(2) fenceHtml_sample hashExtraBlock_eq hb
        placeholder_def show_nat_0)
  have "digits ''0''" by (simp add: digits_def is_digit_def)
  from unHash_placeholder[OF this, of "?S\<lparr>hashBlocks := [fenceFragment]\<rparr>" "[]" "[]"]
  show "unHashExtraBlocks (?S\<lparr>hashBlocks := [fenceFragment]\<rparr>) ''<p>~X0X</p>'' = fenceFragment"
    by (simp add: placeholder_def stored_def digits_val_def digit_val_def
        unHashExtraBlocks_def replace_all_def scan_placeholder[of _ "[]"] match_ph_def)
  show "fenceHtml self language codeblock
       = ''<pre'' @ (if googleCodePrettify self then '' class=\"prettyprint\"'' else [])
         @ ''><code''
         @ (if truthy language
            then (if googleCodePrettify self \<or> highlightJs self
                  then '' class=\"language-'' else '' class=\"'')
                 @ js_str language @ ''\"''
            else [])
         @ ''>'' @ concat (map encodeChar codeblock) @ ''</code></pre>''"
    by (rule fenceHtml_eq)
  show "encodeCode codeblock = concat (map encodeChar codeblock)"
    by (rule encodeCode_chars)
qed

theorem fenced_code_block_fragment_witness:
  "fenceHtml (initHighlighter (Some ''prettify'') (newExtra (\<lambda>s. s))) (Some ''c'') ''a<&>b''
   = ''<pre class=\"prettyprint\"><code class=\"language-c\">a&lt;&amp;&gt;b</code></pre>''
   \<and> fenceHtml (newExtra (\<lambda>s. s)) (Some ''c'') ''a<&>b''
   = ''<pre><code class=\"c\">a&lt;&amp;&gt;b</code></pre>''"
  using fenced_code_block_fragment[of "\<lambda>s. s" "initHighlighter (Some ''prettify'') (newExtra (\<lambda>s. s))" "Some ''c''" "''a<&>b''"]
    fenced_code_block_fragment[of "\<lambda>s. s" "newExtra (\<lambda>s. s)" "Some ''c''" "''a<&>b''"]
  by (simp add: initHighlighter_def newExtra_def truthy_def js_str_def encodeChar_def)

section \<open>Column alignment\<close>

lemma concat_map_concat:
  "concat (map f (concat xss)) = concat (map (\<lambda>xs. concat (map f xs)) xss)"
  by (induction xss) auto

lemma ms_Seq_assoc: "ms (Seq (Seq a b) c) st = ms (Seq a (Seq b c)) st"
proof -
  have "ms (Seq b c) = (\<lambda>x. concat (map (ms c) (ms b x)))"
    by (rule ext) simp
  then show ?thesis
    by (simp add: concat_map_concat comp_def)
qed

lemma ms_Seq_Plus: "ms (Seq (Plus r) b) st = ms (Seq r (Seq (Star r) b)) st"
  unfolding Plus_def by (rule ms_Seq_assoc)

lemma ms_Seq_Chr:
  "ms (Seq (Chr c) b) st =
     (case rest st of [] \<Rightarrow> [] | x # xs \<Rightarrow> if x = c then ms b (MState (Some x) xs (caps st)) else [])"
  by (cases "rest st") auto

lemma ms_Seq_Plus_Chr:
  "ms (Seq (Plus (Chr c)) b) st =
     (case rest st of [] \<Rightarrow> []
      | x # xs \<Rightarrow> if x = c then ms (Seq (Star (Chr c)) b) (MState (Some x) xs (caps st)) else [])"
  unfolding ms_Seq_Plus by (rule ms_Seq_Chr)

lemma ms_Seq_Star_Chr:
  assumes "fails_on b (\<lambda>x. x = c)"
  shows "ms (Seq (Star (Chr c)) b) st = ms b (adv (length (takeWhile (\<lambda>x. x = c) (rest st))) st)"
  by (rule ms_Seq_Star_single[OF single_Chr]) (use assms in \<open>auto simp: fails_on_def\<close>)

lemma rest_adv_run: "rest (adv (length (takeWhile (\<lambda>x. x = c) (rest st))) st) = run c (rest st)"
  by (simp add: run_def dropWhile_eq_drop)

lemma ms_Star_Chr_then:
  assumes "fails_on b (\<lambda>x. x = c)"
  shows "\<exists>st'. rest st' = run c (rest st) \<and> ms (Seq (Star (Chr c)) b) st = ms b st'"
  using ms_Seq_Star_Chr[OF assms, of st] rest_adv_run[of c st] by blast

text \<open>Under the \<^verbatim>\<open>m\<close> flag a pattern that begins with \<^verbatim>\<open>^\<close> matches a text without line
  terminators at its start only.\<close>

lemma re_search_Bol:
  assumes "\<forall>c\<in>set t. \<not> is_line_term c" "\<not> is_line_term c0"
  shows "re_search (Seq Bol x) (Some c0) t = None"
  using assms
proof (induction t arbitrary: c0)
  case Nil
  then show ?case by (simp add: re_exec_def)
next
  case (Cons c t)
  then show ?case by (simp add: re_exec_def)
qed

lemma re_test_Bol:
  assumes "\<forall>c\<in>set t. \<not> is_line_term c"
  shows "re_test (Seq Bol x) t \<longleftrightarrow> ms x (MState None t Map.empty) \<noteq> []"
proof (cases t)
  case Nil
  then show ?thesis
    by (cases "ms x (MState None [] Map.empty)") (auto simp: re_test_def re_exec_def)
next
  case (Cons c cs)
  with assms have "re_search (Seq Bol x) (Some c) cs = None"
    by (intro re_search_Bol) auto
  then show ?thesis
    by (cases "ms x (MState None (c # cs) Map.empty)") (auto simp: re_test_def re_exec_def Cons)
qed

lemma fails_on_compile: "\<not> starts is c \<Longrightarrow> fails_on (compile is) (\<lambda>x. x = c)"
proof (induction "is" rule: compile.induct)
  case 1
  then show ?case by (auto simp: fails_on_def)
next
  case (2 d "is")
  then show ?case by (auto simp: fails_on_def)
next
  case (3 d "is")
  then have d: "c \<noteq> d" and f: "fails_on (compile is) (\<lambda>x. x = c)" by simp_all
  show ?case
    unfolding fails_on_def
  proof (intro allI impI)
    fix st assume "\<exists>x xs. rest st = x # xs \<and> x = c"
    then obtain xs where r: "rest st = c # xs" by blast
    have "ms (Star (Chr d)) st = [st]"
      using d by (simp add: ms_Star_single[OF single_Chr] r)
    moreover have "ms (compile is) st = []"
      using f r by (auto simp: fails_on_def)
    ultimately show "ms (compile (Many d # is)) st = []" by simp
  qed
next
  case (4 d "is")
  then show ?case by (auto simp: fails_on_def ms_Seq_Plus_Chr simp del: ms.simps(4))
qed

text \<open>The matcher finds a match of such a pattern exactly when reading the text by it
  succeeds.\<close>

lemma ms_compile:
  "det is \<Longrightarrow> ms (compile is) st \<noteq> [] \<longleftrightarrow> accepts is (rest st)"
proof (induction "is" arbitrary: st rule: compile.induct)
  case 1
  show ?case by (cases "rest st") auto
next
  case (2 c "is")
  then have IH: "\<And>st. ms (compile is) st \<noteq> [] \<longleftrightarrow> accepts is (rest st)" by simp
  show ?case
    by (cases "rest st") (simp_all only: compile.simps accepts.simps ms_Seq_Chr list.case IH
        mstate.sel simp_thms split: if_splits, auto)
next
  case (3 c "is")
  then have IH: "\<And>st. ms (compile is) st \<noteq> [] \<longleftrightarrow> accepts is (rest st)"
    and f: "fails_on (compile is) (\<lambda>x. x = c)"
    by (simp_all add: fails_on_compile)
  from ms_Star_Chr_then[OF f, of st] obtain st1 where
    "rest st1 = run c (rest st)" "ms (Seq (Star (Chr c)) (compile is)) st = ms (compile is) st1"
    by blast
  then show ?case
    by (simp only: compile.simps accepts.simps IH)
next
  case (4 c "is")
  then have IH: "\<And>st. ms (compile is) st \<noteq> [] \<longleftrightarrow> accepts is (rest st)"
    and f: "fails_on (compile is) (\<lambda>x. x = c)"
    by (simp_all add: fails_on_compile)
  show ?case
  proof (cases "rest st")
    case Nil
    then show ?thesis by (simp only: compile.simps accepts.simps ms_Seq_Plus_Chr list.case simp_thms)
  next
    case (Cons x xs)
    show ?thesis
    proof (cases "x = c")
      case False
      then show ?thesis
        by (simp only: compile.simps accepts.simps ms_Seq_Plus_Chr Cons list.case if_False simp_thms)
    next
      case True
      from ms_Star_Chr_then[OF f, of "MState (Some x) xs (caps st)"] obtain st1 where
        "rest st1 = run c xs"
        "ms (Seq (Star (Chr c)) (compile is)) (MState (Some x) xs (caps st)) = ms (compile is) st1"
        by auto
      then show ?thesis
        using True
        by (simp only: compile.simps accepts.simps ms_Seq_Plus_Chr Cons list.case if_True simp_thms IH)
    qed
  qed
qed

lemma re_test_Bol_compile:
  assumes "\<forall>c\<in>set t. \<not> is_line_term c" "det is"
  shows "re_test (Seq Bol (compile is)) t \<longleftrightarrow> accepts is t"
  unfolding re_test_Bol[OF assms(1)] ms_compile[OF assms(2)] by simp

lemma run_replicate: "run c (replicate a c @ r) = run c r"
  by (induction a) (auto simp: run_def)

lemma run_other: "r = [] \<or> hd r \<noteq> c \<Longrightarrow> run c r = r"
  by (cases r) (auto simp: run_def)

lemma run_decomp: "\<exists>a. s = replicate a c @ run c s"
proof -
  have "takeWhile (\<lambda>x. x = c) s = replicate (length (takeWhile (\<lambda>x. x = c) s)) c"
    by (induction s) auto
  then have "s = replicate (length (takeWhile (\<lambda>x. x = c) s)) c @ run c s"
    unfolding run_def by (metis takeWhile_dropWhile_id)
  then show ?thesis by blast
qed

lemma chars_distinct [simp]:
  "SP \<noteq> DASH" "SP \<noteq> COLON" "DASH \<noteq> COLON" "DASH \<noteq> SP" "COLON \<noteq> SP" "COLON \<noteq> DASH"
  "\<not> is_line_term SP" "\<not> is_line_term DASH" "\<not> is_line_term COLON"
  by (simp_all add: SP_def DASH_def COLON_def is_line_term_def)

lemma align_patterns:
  "alignRight = Seq Bol (compile rightItems)"
  "alignCenter = Seq Bol (compile centerItems)"
  "alignLeft = Seq Bol (compile leftItems)"
  by (simp_all add: alignRight_def alignCenter_def alignLeft_def rightItems_def centerItems_def
      leftItems_def Sp_def SP_def DASH_def COLON_def)

lemma det_items: "det rightItems" "det centerItems" "det leftItems"
  by (simp_all add: rightItems_def centerItems_def leftItems_def)

lemma run_SP_replicate: "run SP (replicate b SP) = []"
  using run_replicate[of SP b "[]"] by (simp add: run_def)

lemma accepts_right_shape: "shapeRight t \<Longrightarrow> accepts rightItems t"
proof -
  assume "shapeRight t"
  then obtain a n b where n: "0 < n"
    and t: "t = replicate a SP @ replicate n DASH @ [COLON] @ replicate b SP"
    by (auto simp: shapeRight_def)
  from n obtain m where m: "n = Suc m" by (cases n) auto
  have 1: "run SP t = DASH # replicate m DASH @ COLON # replicate b SP"
    unfolding t m run_replicate by (simp add: run_other)
  have 2: "run DASH (replicate m DASH @ COLON # replicate b SP) = COLON # replicate b SP"
    unfolding run_replicate by (simp add: run_other)
  show ?thesis
    by (simp add: rightItems_def 1 2 run_SP_replicate)
qed

lemma accepts_right_only:
  assumes "\<forall>c\<in>set t. \<not> is_line_term c" "accepts rightItems t"
  shows "shapeRight t"
proof -
  obtain a where a: "t = replicate a SP @ run SP t" using run_decomp by blast
  from assms(2) obtain t1 where 1: "run SP t = DASH # t1"
    and r1: "accepts [One COLON, Many SP] (run DASH t1)"
    by (cases "run SP t") (auto simp: rightItems_def)
  obtain m where m: "t1 = replicate m DASH @ run DASH t1" using run_decomp by blast
  from r1 obtain t2 where 2: "run DASH t1 = COLON # t2" and r2: "accepts [] (run SP t2)"
    by (cases "run DASH t1") auto
  obtain b where b: "t2 = replicate b SP @ run SP t2" using run_decomp by blast
  have t: "t = replicate a SP @ replicate (Suc m) DASH @ [COLON] @ replicate b SP @ run SP t2"
    using a 1 m 2 b by (metis append_Cons append_Nil replicate_Suc)
  have "\<forall>c\<in>set (run SP t2). \<not> is_line_term c"
    using assms(1) by (subst (asm) t) auto
  with r2 have "run SP t2 = []" by (cases "run SP t2") auto
  with t show ?thesis
    unfolding shapeRight_def by (intro exI[of _ a] exI[of _ "Suc m"] exI[of _ b]) simp
qed

lemma accepts_center_shape: "shapeCenter t \<Longrightarrow> accepts centerItems t"
proof -
  assume "shapeCenter t"
  then obtain a n b where n: "0 < n"
    and t: "t = replicate a SP @ [COLON] @ replicate n DASH @ [COLON] @ replicate b SP"
    by (auto simp: shapeCenter_def)
  from n obtain m where m: "n = Suc m" by (cases n) auto
  have 1: "run SP t = COLON # DASH # replicate m DASH @ COLON # replicate b SP"
    unfolding t m run_replicate by (simp add: run_other)
  have 2: "run DASH (replicate m DASH @ COLON # replicate b SP) = COLON # replicate b SP"
    unfolding run_replicate by (simp add: run_other)
  show ?thesis
    by (simp add: centerItems_def 1 2 run_SP_replicate)
qed

lemma accepts_center_only:
  assumes "\<forall>c\<in>set t. \<not> is_line_term c" "accepts centerItems t"
  shows "shapeCenter t"
proof -
  obtain a where a: "t = replicate a SP @ run SP t" using run_decomp by blast
  from assms(2) obtain t1 where 1: "run SP t = COLON # DASH # t1"
    and r1: "accepts [One COLON, Many SP] (run DASH t1)"
    by (cases "run SP t"; cases "tl (run SP t)") (auto simp: centerItems_def)
  obtain m where m: "t1 = replicate m DASH @ run DASH t1" using run_decomp by blast
  from r1 obtain t2 where 2: "run DASH t1 = COLON # t2" and r2: "accepts [] (run SP t2)"
    by (cases "run DASH t1") auto
  obtain b where b: "t2 = replicate b SP @ run SP t2" using run_decomp by blast
  have t: "t = replicate a SP @ [COLON] @ replicate (Suc m) DASH @ [COLON] @ replicate b SP
               @ run SP t2"
    using a 1 m 2 b by (metis append_Cons append_Nil replicate_Suc)
  have "\<forall>c\<in>set (run SP t2). \<not> is_line_term c"
    using assms(1) by (subst (asm) t) auto
  with r2 have "run SP t2 = []" by (cases "run SP t2") auto
  with t show ?thesis
    unfolding shapeCenter_def by (intro exI[of _ a] exI[of _ "Suc m"] exI[of _ b]) simp
qed

lemma accepts_left_shape: "shapeLeft t \<Longrightarrow> accepts leftItems t"
proof -
  assume "shapeLeft t"
  then obtain a n b where n: "0 < n"
    and t: "t = replicate a SP @ [COLON] @ replicate n DASH @ replicate b SP"
    by (auto simp: shapeLeft_def)
  from n obtain m where m: "n = Suc m" by (cases n) auto
  have 1: "run SP t = COLON # DASH # replicate m DASH @ replicate b SP"
    unfolding t m run_replicate by (simp add: run_other)
  have 2: "run DASH (replicate m DASH @ replicate b SP) = replicate b SP"
    unfolding run_replicate by (cases b) (simp_all add: run_other)
  show ?thesis
    by (simp add: leftItems_def 1 2 run_SP_replicate)
qed

lemma accepts_left_only:
  assumes "\<forall>c\<in>set t. \<not> is_line_term c" "accepts leftItems t"
  shows "shapeLeft t"
proof -
  obtain a where a: "t = replicate a SP @ run SP t" using run_decomp by blast
  from assms(2) obtain t1 where 1: "run SP t = COLON # DASH # t1"
    and r2: "accepts [] (run SP (run DASH t1))"
    by (cases "run SP t"; cases "tl (run SP t)") (auto simp: leftItems_def)
  obtain m where m: "t1 = replicate m DASH @ run DASH t1" using run_decomp by blast
  obtain b where b: "run DASH t1 = replicate b SP @ run SP (run DASH t1)"
    using run_decomp by blast
  have t: "t = replicate a SP @ [COLON] @ replicate (Suc m) DASH @ replicate b SP
               @ run SP (run DASH t1)"
    using a 1 m b by (metis append_Cons append_Nil replicate_Suc)
  have "\<forall>c\<in>set (run SP (run DASH t1)). \<not> is_line_term c"
    using assms(1) by (subst (asm) t) auto
  with r2 have "run SP (run DASH t1) = []" by (cases "run SP (run DASH t1)") auto
  with t show ?thesis
    unfolding shapeLeft_def by (intro exI[of _ a] exI[of _ "Suc m"] exI[of _ b]) simp
qed

lemma shape_no_line_term:
  "shapeRight t \<or> shapeCenter t \<or> shapeLeft t \<Longrightarrow> \<forall>c\<in>set t. \<not> is_line_term c"
  by (auto simp: shapeRight_def shapeCenter_def shapeLeft_def)

lemma accepts_exclusive:
  "\<not> (accepts rightItems t \<and> accepts centerItems t)"
  "\<not> (accepts rightItems t \<and> accepts leftItems t)"
  "\<not> (accepts centerItems t \<and> accepts leftItems t)"
proof -
  show "\<not> (accepts rightItems t \<and> accepts centerItems t)"
    by (cases "run SP t") (auto simp: rightItems_def centerItems_def)
  show "\<not> (accepts rightItems t \<and> accepts leftItems t)"
    by (cases "run SP t") (auto simp: rightItems_def leftItems_def)
  show "\<not> (accepts centerItems t \<and> accepts leftItems t)"
  proof
    assume h: "accepts centerItems t \<and> accepts leftItems t"
    then obtain t1 where 1: "run SP t = COLON # DASH # t1"
      and c: "accepts [One COLON, Many SP] (run DASH t1)"
      and l: "accepts [] (run SP (run DASH t1))"
      by (cases "run SP t"; cases "tl (run SP t)") (auto simp: centerItems_def leftItems_def)
    from c obtain t2 where "run DASH t1 = COLON # t2" by (cases "run DASH t1") auto
    with l show False by (simp add: run_other)
  qed
qed

lemma re_test_align:
  assumes "\<forall>c\<in>set t. \<not> is_line_term c"
  shows "re_test alignRight t \<longleftrightarrow> shapeRight t"
    and "re_test alignCenter t \<longleftrightarrow> shapeCenter t"
    and "re_test alignLeft t \<longleftrightarrow> shapeLeft t"
  unfolding align_patterns re_test_Bol_compile[OF assms det_items(1)]
    re_test_Bol_compile[OF assms det_items(2)] re_test_Bol_compile[OF assms det_items(3)]
  using accepts_right_shape accepts_right_only[OF assms]
    accepts_center_shape accepts_center_only[OF assms]
    accepts_left_shape accepts_left_only[OF assms]
  by blast+

lemma shapes_exclusive:
  "\<not> (shapeRight t \<and> shapeCenter t)" "\<not> (shapeRight t \<and> shapeLeft t)"
  "\<not> (shapeCenter t \<and> shapeLeft t)"
  using accepts_exclusive[of t] accepts_right_shape accepts_center_shape accepts_left_shape
  by blast+

lemma dashes_no_shape:
  assumes "0 < n"
  shows "\<not> shapeRight (replicate a SP @ replicate n DASH @ replicate b SP)"
    and "\<not> shapeCenter (replicate a SP @ replicate n DASH @ replicate b SP)"
    and "\<not> shapeLeft (replicate a SP @ replicate n DASH @ replicate b SP)"
proof -
  let ?t = "replicate a SP @ replicate n DASH @ replicate b SP"
  from assms obtain m where m: "n = Suc m" by (cases n) auto
  have 1: "run SP ?t = DASH # replicate m DASH @ replicate b SP"
    unfolding m run_replicate by (simp add: run_other)
  have 2: "run DASH (replicate m DASH @ replicate b SP) = replicate b SP"
    unfolding run_replicate by (cases b) (simp_all add: run_other)
  have 3: "\<not> accepts [One COLON, Many SP] (replicate b SP)"
    by (cases b) simp_all
  have "accepts rightItems ?t \<longleftrightarrow> accepts [Many1 DASH, One COLON, Many SP] (run SP ?t)"
    by (simp add: rightItems_def)
  also have "\<dots> \<longleftrightarrow> accepts [One COLON, Many SP] (run DASH (replicate m DASH @ replicate b SP))"
    unfolding 1 by simp
  also have "\<dots> \<longleftrightarrow> accepts [One COLON, Many SP] (replicate b SP)"
    unfolding 2 ..
  finally have "\<not> accepts rightItems ?t"
    using 3 by blast
  then show "\<not> shapeRight ?t" using accepts_right_shape by blast
  have "\<not> accepts centerItems ?t" by (simp add: centerItems_def 1)
  then show "\<not> shapeCenter ?t" using accepts_center_shape by blast
  have "\<not> accepts leftItems ?t" by (simp add: leftItems_def 1)
  then show "\<not> shapeLeft ?t" using accepts_left_shape by blast
qed

text \<open>
  C4: the alignment of a separator token. \<^verbatim>\<open>alignOf\<close> is defined on every token and
  yields one of four style attributes. A token of the shape \<^verbatim>\<open>-+:\<close> gets the style
  right, one of the shape \<^verbatim>\<open>:-+:\<close> the style center, one of the shape \<^verbatim>\<open>:-+\<close> the
  style left; every other token without a line terminator, a plain \<^verbatim>\<open>-+\<close> among them,
  gets the empty attribute; and no token has two of the three shapes.
\<close>

theorem alignOf_classification:
  "(shapeRight t \<longrightarrow> alignOf t = '' style=\"text-align:right;\"'')
   \<and> (shapeCenter t \<longrightarrow> alignOf t = '' style=\"text-align:center;\"'')
   \<and> (shapeLeft t \<longrightarrow> alignOf t = '' style=\"text-align:left;\"'')
   \<and> ((\<forall>c\<in>set t. \<not> is_line_term c) \<and> \<not> shapeRight t \<and> \<not> shapeCenter t \<and> \<not> shapeLeft t
        \<longrightarrow> alignOf t = [])
   \<and> (0 < n \<longrightarrow> alignOf (replicate a SP @ replicate n DASH @ replicate b SP) = [])
   \<and> \<not> (shapeRight t \<and> shapeCenter t) \<and> \<not> (shapeRight t \<and> shapeLeft t)
   \<and> \<not> (shapeCenter t \<and> shapeLeft t)
   \<and> alignOf t \<in> {'' style=\"text-align:right;\"'', '' style=\"text-align:center;\"'',
                    '' style=\"text-align:left;\"'', []}"
proof (intro conjI impI)
  show "alignOf t = '' style=\"text-align:right;\"''" if "shapeRight t"
    using that re_test_align(1)[OF shape_no_line_term, of t] by (simp add: alignOf_def)
  show "alignOf t = '' style=\"text-align:center;\"''" if "shapeCenter t"
    using that re_test_align(1,2)[OF shape_no_line_term, of t] shapes_exclusive(1)[of t]
    by (auto simp add: alignOf_def)
  show "alignOf t = '' style=\"text-align:left;\"''" if "shapeLeft t"
    using that re_test_align[OF shape_no_line_term, of t] shapes_exclusive(2,3)[of t]
    by (auto simp add: alignOf_def)
  show "alignOf t = []"
    if "(\<forall>c\<in>set t. \<not> is_line_term c) \<and> \<not> shapeRight t \<and> \<not> shapeCenter t \<and> \<not> shapeLeft t"
    using that re_test_align[of t] by (simp add: alignOf_def)
  show "alignOf (replicate a SP @ replicate n DASH @ replicate b SP) = []" if "0 < n"
  proof -
    have "\<forall>c\<in>set (replicate a SP @ replicate n DASH @ replicate b SP). \<not> is_line_term c"
      by auto
    from re_test_align[OF this] dashes_no_shape[OF that, of a b] show ?thesis
      by (simp add: alignOf_def)
  qed
  show "\<not> (shapeRight t \<and> shapeCenter t)" "\<not> (shapeRight t \<and> shapeLeft t)"
    "\<not> (shapeCenter t \<and> shapeLeft t)"
    by (rule shapes_exclusive)+
  show "alignOf t \<in> {'' style=\"text-align:right;\"'', '' style=\"text-align:center;\"'',
                    '' style=\"text-align:left;\"'', []}"
    by (simp add: alignOf_def)
qed

theorem alignOf_classification_witness:
  "alignOf '' --: '' = '' style=\"text-align:right;\"''
   \<and> alignOf '':--:'' = '' style=\"text-align:center;\"''
   \<and> alignOf '':-'' = '' style=\"text-align:left;\"''
   \<and> alignOf ''---'' = []
   \<and> alignOf ''- -'' = []"
proof -
  have r: "shapeRight '' --: ''"
    unfolding shapeRight_def
    by (intro exI[of _ 1] exI[of _ 2]) (simp add: SP_def DASH_def COLON_def eval_nat_numeral)
  have c: "shapeCenter '':--:''"
    unfolding shapeCenter_def
    by (intro exI[of _ 0] exI[of _ 2] exI[of _ 0]) (simp add: SP_def DASH_def COLON_def eval_nat_numeral)
  have l: "shapeLeft '':-''"
    unfolding shapeLeft_def
    by (intro exI[of _ 0] exI[of _ 1] exI[of _ 0]) (simp add: SP_def DASH_def COLON_def)
  have d: "replicate 0 SP @ replicate 3 DASH @ replicate 0 SP = ''---''"
    by (simp add: DASH_def eval_nat_numeral)
  have n: "\<not> accepts rightItems ''- -''" "\<not> accepts centerItems ''- -''"
    "\<not> accepts leftItems ''- -''"
    by (simp_all add: rightItems_def centerItems_def leftItems_def run_def SP_def DASH_def COLON_def)
  have o: "(\<forall>c\<in>set ''- -''. \<not> is_line_term c) \<and> \<not> shapeRight ''- -'' \<and> \<not> shapeCenter ''- -''
           \<and> \<not> shapeLeft ''- -''"
    using n accepts_right_shape accepts_center_shape accepts_left_shape
    by (auto simp: is_line_term_def)
  note T = alignOf_classification
  from T[of "'' --: ''", THEN conjunct1, rule_format, OF r]
    T[of "'':--:''", THEN conjunct2, THEN conjunct1, rule_format, OF c]
    T[of "'':-''", THEN conjunct2, THEN conjunct2, THEN conjunct1, rule_format, OF l]
    T[of "''- -''", THEN conjunct2, THEN conjunct2, THEN conjunct2, THEN conjunct1, rule_format, OF o]
    T[of _ 3 0 0, THEN conjunct2, THEN conjunct2, THEN conjunct2, THEN conjunct2, THEN conjunct1,
      rule_format, unfolded d]
  show ?thesis by simp
qed

section \<open>Tables: the width of the rows\<close>

lemma length_padTo [simp]: "length (padTo n xs) = n"
  by (auto simp: padTo_def)

lemma padTo_nth_align:
  "j < n \<Longrightarrow> padTo n al ! j = (case js_nth al j of None \<Rightarrow> [] | Some a \<Rightarrow> a)"
  by (auto simp: padTo_def js_nth_def nth_append)

lemma padTo_nth_cells:
  "j < n \<Longrightarrow> padTo n cells ! j = (cells @ replicate (nat (int n - int (length cells))) []) ! j"
  by (auto simp: padTo_def nth_append)

lemma cellHtml_ok:
  "j < length cells \<Longrightarrow>
   cellHtml mk tag al cells j =
     Inr (cellFragment mk tag (case js_nth al j of None \<Rightarrow> [] | Some a \<Rightarrow> a) (cells ! j))"
  by (simp add: cellHtml_def cellFragment_def js_nth_def)

lemma cellsLoop_ok:
  "n \<le> length cells \<Longrightarrow>
   cellsLoop mk tag al cells n html =
     Inr (html @ concat (map (\<lambda>j. cellFragment mk tag (padTo n al ! j) (cells ! j)) [0..<n]))"
proof -
  assume n: "n \<le> length cells"
  have "k \<le> n \<Longrightarrow>
        foldl (\<lambda>acc j. case acc of Inl e \<Rightarrow> Inl e
                       | Inr h \<Rightarrow> (case cellHtml mk tag al cells j of Inl e \<Rightarrow> Inl e
                                   | Inr c \<Rightarrow> Inr (h @ c)))
              (Inr html) [0..<k]
        = Inr (html @ concat (map (\<lambda>j. cellFragment mk tag (padTo n al ! j) (cells ! j)) [0..<k]))"
    for k
  proof (induction k)
    case 0
    show ?case by simp
  next
    case (Suc k)
    then have "k < n" "k < length cells" using n by simp_all
    with Suc show ?case by (simp add: cellHtml_ok padTo_nth_align)
  qed
  then show ?thesis by (simp add: cellsLoop_def)
qed

lemma map2_nth:
  "length xs = n \<Longrightarrow> length ys = n \<Longrightarrow> map2 f xs ys = map (\<lambda>j. f (xs ! j) (ys ! j)) [0..<n]"
  by (rule nth_equalityI) auto

text \<open>Without the \<^verbatim>\<open>m\<close> flag a pattern that begins with \<^verbatim>\<open>^\<close> matches at the start of
  the text only.\<close>

lemma re_search_Bos:
  "re_search (Seq Bos x) (Some c0) t = None"
proof (induction t arbitrary: c0)
  case Nil
  then show ?case by (simp add: re_exec_def)
next
  case (Cons c t)
  then show ?case by (simp add: re_exec_def)
qed

lemma re_test_Bos: "re_test (Seq Bos x) t \<longleftrightarrow> ms x (MState None t Map.empty) \<noteq> []"
proof (cases t)
  case Nil
  then show ?thesis
    by (cases "ms x (MState None [] Map.empty)") (auto simp: re_test_def re_exec_def)
next
  case (Cons c cs)
  have "re_search (Seq Bos x) (Some c) cs = None" by (rule re_search_Bos)
  then show ?thesis
    by (cases "ms x (MState None (c # cs) Map.empty)") (auto simp: re_test_def re_exec_def Cons)
qed

lemma re_test_blankLine: "re_test blankLine row \<longleftrightarrow> list_all is_space row"
proof -
  have "ms (Seq (Star Space) Eos) st = ms Eos (adv (length (takeWhile is_space (rest st))) st)" for st
    unfolding Space_def by (rule ms_Seq_Star_single[OF single_Cls]) auto
  then have "ms (Seq (Star Space) Eos) (MState None row Map.empty) \<noteq> [] \<longleftrightarrow>
             dropWhile is_space row = []"
    by (simp add: dropWhile_eq_drop)
  also have "\<dots> \<longleftrightarrow> list_all is_space row"
    by (simp add: list_all_iff)
  finally show ?thesis
    by (simp add: blankLine_def re_test_Bos)
qed

lemma rowStep_ok: "rowStep mk al n html row = Inr (html @ rowFragment mk al n row)"
proof (cases "list_all is_space row")
  case True
  then show ?thesis by (simp add: rowStep_def rowFragment_def re_test_blankLine)
next
  case False
  let ?cells = "split_re cellSep row @ replicate (nat (int n - int (length (split_re cellSep row)))) []"
  have len: "n \<le> length ?cells" by simp
  have "map (\<lambda>j. cellFragment mk ''td'' (padTo n al ! j) (?cells ! j)) [0..<n]
        = map2 (cellFragment mk ''td'') (padTo n al) (padTo n (split_re cellSep row))"
    by (subst map2_nth[where n = n]) (simp_all add: padTo_nth_cells)
  with False show ?thesis
    by (simp add: rowStep_def rowFragment_def re_test_blankLine Let_def cellsLoop_ok[OF len])
qed

lemma rowsLoop_ok:
  "rowsLoop mk al n rows html = Inr (html @ concat (map (rowFragment mk al n) rows))"
proof -
  have "foldl (\<lambda>acc row. case acc of Inl e \<Rightarrow> Inl e | Inr h \<Rightarrow> rowStep mk al n h row) (Inr html) rows
        = Inr (html @ concat (map (rowFragment mk al n) rows))"
    by (induction rows arbitrary: html) (simp_all add: rowStep_ok)
  then show ?thesis by (simp add: rowsLoop_def)
qed

lemma tableHtml_tableSpec:
  "tableHtml self header separator body = Inr (tableSpec self header separator body)"
proof -
  let ?cells = "headerCells header"
  have "map (\<lambda>j. cellFragment (converter self) ''th'' (padTo (length ?cells) (columnAligns separator) ! j) (?cells ! j))
            [0..<length ?cells]
        = map2 (cellFragment (converter self) ''th'') (padTo (length ?cells) (columnAligns separator)) ?cells"
    by (subst map2_nth[where n = "length ?cells"]) simp_all
  then show ?thesis
    unfolding tableHtml_def tableSpec_def Let_def
    by (simp add: cellsLoop_ok rowsLoop_ok headerCells_def columnAligns_def bodyLines_def stripPipes_def)
qed

lemma grps_tables: "{1, 2, 3} \<subseteq> grps leadingPipe" "{1, 2, 3} \<subseteq> grps noLeadingPipe"
  by (simp_all add: leadingPipe_def noLeadingPipe_def)

lemma doTable_ok:
  assumes "{1, 2, 3} \<subseteq> dom cs"
  shows "\<exists>h s b. cs 1 = Some h \<and> cs 2 = Some s \<and> cs 3 = Some b
           \<and> doTable m cs self = Inr (hashExtraBlock (tableSpec self h s b) self)"
proof -
  from assms obtain h s b where "cs 1 = Some h" "cs 2 = Some s" "cs 3 = Some b" by auto
  then show ?thesis by (simp add: doTable_def tableHtml_tableSpec)
qed






lemma prevAfter_Nil [simp]: "prevAfter p [] = p"
  by (simp add: prevAfter_def)

lemma noLT_simps [simp]:
  "noLT []" "noLT (c # l) \<longleftrightarrow> \<not> is_line_term c \<and> noLT l" "noLT (a @ b) \<longleftrightarrow> noLT a \<and> noLT b"
  by (auto simp: noLT_def)

lemma is_line_term_simps [simp]:
  "is_line_term LF" "\<not> is_line_term CHR '' ''" "\<not> is_line_term CHR ''|''"
  by (simp_all add: is_line_term_def LF_def)

subsection \<open>The leading pipes\<close>













subsection \<open>The trailing pipes\<close>









lemma all_spaces_rev:
  "dropWhile (\<lambda>x. x = CHR '' '') (rev l) = [] \<longleftrightarrow> dropWhile (\<lambda>x. x = CHR '' '') l = []"
  by simp





subsection \<open>The lines of a body\<close>















subsection \<open>The code units of a matched body\<close>















section \<open>Definition lists: tight and loose definitions\<close>

lemma rtrimSpec_Nil [simp]: "rtrimSpec [] = []"
  by (simp add: rtrimSpec_def)






































section \<open>The recognizers without a match\<close>

lemma grps_fence: "2 \<in> grps fencePattern"
  by (simp add: fencePattern_def Lit.simps)

lemma grps_wholeList: "2 \<in> grps wholeList"
  by (simp add: wholeList_def)

lemma grps_dt: "2 \<in> grps dtPattern"
  by (simp add: dtPattern_def)

lemma grps_dd: "{2, 3} \<subseteq> grps ddPattern"
  by (simp add: ddPattern_def)

lemma fenceBlock_total: "2 \<in> dom cs \<Longrightarrow> \<exists>y. fenceBlock m cs self = Inr y"
  by (auto simp: fenceBlock_def)

lemma dtItems_total: "2 \<in> dom cs \<Longrightarrow> \<exists>y. dtItems mk m cs u = Inr y"
  by (auto simp: dtItems_def Let_def)

lemma ddItems_total: "{2, 3} \<subseteq> dom cs \<Longrightarrow> \<exists>y. ddItems mk m cs u = Inr y"
  by (auto simp: ddItems_def ddItem_def)

lemma processDefListItems_total: "\<exists>y. processDefListItems self listStr = Inr y"
proof -
  let ?s2 = "replace_first trailingBlankLines (\<lambda>m cs. [LF]) (addAnchors listStr)"
  have "\<exists>y. replace_all_st dtPattern (dtItems (converter self)) ?s2 () = Inr y"
  proof (rule replace_all_st_total)
    fix m and cs :: "nat \<rightharpoonup> string" and st assume "grps dtPattern \<subseteq> dom cs"
    with grps_dt have "2 \<in> dom cs" by blast
    then show "\<exists>y. dtItems (converter self) m cs st = Inr y" by (rule dtItems_total)
  qed
  then obtain s3 u where 3: "replace_all_st dtPattern (dtItems (converter self)) ?s2 () = Inr (s3, u)"
    by auto
  have "\<exists>y. replace_all_st ddPattern (ddItems (converter self)) s3 () = Inr y"
  proof (rule replace_all_st_total)
    fix m and cs :: "nat \<rightharpoonup> string" and st assume "grps ddPattern \<subseteq> dom cs"
    with grps_dd have "{2, 3} \<subseteq> dom cs" by blast
    then show "\<exists>y. ddItems (converter self) m cs st = Inr y" by (rule ddItems_total)
  qed
  then obtain s4 u' where 4: "replace_all_st ddPattern (ddItems (converter self)) s3 () = Inr (s4, u')"
    by auto
  show ?thesis by (simp add: processDefListItems_def Let_def 3 4)
qed

lemma defListBlock_total: "2 \<in> dom cs \<Longrightarrow> \<exists>y. defListBlock m cs self = Inr y"
proof -
  assume "2 \<in> dom cs"
  then obtain l where l: "cs 2 = Some l" by auto
  from processDefListItems_total[of self l] obtain items where
    "processDefListItems self l = Inr items" by blast
  with l show ?thesis by (simp add: defListBlock_def Let_def split: prod.splits)
qed

lemma doTable_total: "{1, 2, 3} \<subseteq> dom cs \<Longrightarrow> \<exists>y. doTable m cs self = Inr y"
  using doTable_ok[of cs m self] by auto

lemma tables_total: "\<exists>t e. tables self doc = Inr (t, e)"
proof -
  have "\<exists>y. replace_all_st leadingPipe doTable doc self = Inr y"
  proof (rule replace_all_st_total)
    fix m and cs :: "nat \<rightharpoonup> string" and st assume "grps leadingPipe \<subseteq> dom cs"
    with grps_tables have "{1, 2, 3} \<subseteq> dom cs" by blast
    then show "\<exists>y. doTable m cs st = Inr y" by (rule doTable_total)
  qed
  then obtain t1 e1 where 1: "replace_all_st leadingPipe doTable doc self = Inr (t1, e1)" by auto
  have "\<exists>y. replace_all_st noLeadingPipe doTable t1 e1 = Inr y"
  proof (rule replace_all_st_total)
    fix m and cs :: "nat \<rightharpoonup> string" and st assume "grps noLeadingPipe \<subseteq> dom cs"
    with grps_tables have "{1, 2, 3} \<subseteq> dom cs" by blast
    then show "\<exists>y. doTable m cs st = Inr y" by (rule doTable_total)
  qed
  with 1 show ?thesis by (auto simp: tables_def)
qed

lemma fencedCodeBlocks_total: "\<exists>t e. fencedCodeBlocks self doc = Inr (t, e)"
proof -
  have "\<exists>y. replace_all_st fencePattern fenceBlock doc self = Inr y"
  proof (rule replace_all_st_total)
    fix m and cs :: "nat \<rightharpoonup> string" and st assume "grps fencePattern \<subseteq> dom cs"
    with grps_fence have "2 \<in> dom cs" by blast
    then show "\<exists>y. fenceBlock m cs st = Inr y" by (rule fenceBlock_total)
  qed
  then show ?thesis by (auto simp: fencedCodeBlocks_def)
qed

lemma definitionLists_total: "\<exists>t e. definitionLists self doc = Inr (t, e)"
proof -
  have "\<exists>y. replace_all_st wholeList defListBlock (addAnchors doc) self = Inr y"
  proof (rule replace_all_st_total)
    fix m and cs :: "nat \<rightharpoonup> string" and st assume "grps wholeList \<subseteq> dom cs"
    with grps_wholeList have "2 \<in> dom cs" by blast
    then show "\<exists>y. defListBlock m cs st = Inr y" by (rule defListBlock_total)
  qed
  then show ?thesis by (auto simp: definitionLists_def Let_def)
qed

lemma all_ext_total: "\<exists>t e. all_ext self doc = Inr (t, e)"
proof -
  from tables_total[of self doc] obtain t1 e1 where "tables self doc = Inr (t1, e1)" by blast
  with fencedCodeBlocks_total[of e1 t1] show ?thesis by (auto simp: all_ext_def)
qed

lemma tables_no_match:
  "\<not> re_test leadingPipe doc \<Longrightarrow> \<not> re_test noLeadingPipe doc \<Longrightarrow> tables self doc = Inr (doc, self)"
  by (simp add: tables_def replace_all_st_no_match)

lemma fencedCodeBlocks_no_match:
  "\<not> re_test fencePattern doc \<Longrightarrow> fencedCodeBlocks self doc = Inr (doc, self)"
  by (simp add: fencedCodeBlocks_def replace_all_st_no_match)

lemma definitionLists_no_match:
  "\<not> re_test wholeList (addAnchors doc) \<Longrightarrow>
   definitionLists self doc = Inr (removeAnchors (addAnchors doc), self)"
  by (simp add: definitionLists_def replace_all_st_no_match Let_def)

lemma removeAnchors_addAnchors:
  "first_char doc \<noteq> Some STX \<Longrightarrow> last_char doc \<noteq> Some ETX \<Longrightarrow> removeAnchors (addAnchors doc) = doc"
  by (cases doc) (auto simp: addAnchors_def removeAnchors_def first_char_def last_char_def Let_def
      STX_def ETX_def split: if_splits)

lemma plainSample_unmatched:
  "\<not> re_test leadingPipe plainSample" "\<not> re_test noLeadingPipe plainSample"
  "\<not> re_test fencePattern plainSample" "\<not> re_test wholeList (addAnchors plainSample)"
  by code_simp+

lemma plainSample_ends:
  "first_char plainSample \<noteq> Some STX" "last_char plainSample \<noteq> Some ETX"
  by (simp_all add: plainSample_def first_char_def last_char_def STX_def ETX_def)

text \<open>
  C8: the recognizers without a match, and their totality. \<^verbatim>\<open>tables\<close> and
  \<^verbatim>\<open>fencedCodeBlocks\<close> return a text unchanged in which their patterns match nowhere.
  \<^verbatim>\<open>definitionLists\<close> searches the text between its two sentinels; when its pattern
  matches nowhere there, it returns the text without the sentinels, which is the text
  itself when the text neither begins with the code unit 2 nor ends with the code unit
  3. Each of the recognizers, and \<^verbatim>\<open>all\<close>, returns a text for every text and every
  state of the object: no replacement function meets a capture that is undefined.
\<close>

theorem recognizers_total_and_idle_without_match:
  "(\<not> re_test leadingPipe doc \<and> \<not> re_test noLeadingPipe doc \<longrightarrow>
      tables self doc = Inr (doc, self))
   \<and> (\<not> re_test fencePattern doc \<longrightarrow> fencedCodeBlocks self doc = Inr (doc, self))
   \<and> (\<not> re_test wholeList (addAnchors doc) \<longrightarrow>
        definitionLists self doc = Inr (removeAnchors (addAnchors doc), self))
   \<and> (\<not> re_test wholeList (addAnchors doc) \<and> first_char doc \<noteq> Some STX
        \<and> last_char doc \<noteq> Some ETX \<longrightarrow>
        definitionLists self doc = Inr (doc, self))
   \<and> (\<exists>t e. tables self doc = Inr (t, e))
   \<and> (\<exists>t e. fencedCodeBlocks self doc = Inr (t, e))
   \<and> (\<exists>t e. all_ext self doc = Inr (t, e))
   \<and> (\<exists>t e. definitionLists self doc = Inr (t, e))
   \<and> (\<exists>t. processDefListItems self doc = Inr t)"
proof (intro conjI impI)
  show "tables self doc = Inr (doc, self)"
    if "\<not> re_test leadingPipe doc \<and> \<not> re_test noLeadingPipe doc"
    using that by (simp add: tables_no_match)
  show "fencedCodeBlocks self doc = Inr (doc, self)" if "\<not> re_test fencePattern doc"
    using that by (rule fencedCodeBlocks_no_match)
  show "definitionLists self doc = Inr (removeAnchors (addAnchors doc), self)"
    if "\<not> re_test wholeList (addAnchors doc)"
    using that by (rule definitionLists_no_match)
  show "definitionLists self doc = Inr (doc, self)"
    if "\<not> re_test wholeList (addAnchors doc) \<and> first_char doc \<noteq> Some STX
        \<and> last_char doc \<noteq> Some ETX"
    using that by (simp add: definitionLists_no_match removeAnchors_addAnchors)
  show "\<exists>t e. tables self doc = Inr (t, e)" by (rule tables_total)
  show "\<exists>t e. fencedCodeBlocks self doc = Inr (t, e)" by (rule fencedCodeBlocks_total)
  show "\<exists>t e. all_ext self doc = Inr (t, e)" by (rule all_ext_total)
  show "\<exists>t e. definitionLists self doc = Inr (t, e)" by (rule definitionLists_total)
  show "\<exists>t. processDefListItems self doc = Inr t" by (rule processDefListItems_total)
qed

theorem recognizers_total_and_idle_without_match_witness:
  "tables (newExtra (\<lambda>s. s)) plainSample = Inr (plainSample, newExtra (\<lambda>s. s))
   \<and> fencedCodeBlocks (newExtra (\<lambda>s. s)) plainSample = Inr (plainSample, newExtra (\<lambda>s. s))
   \<and> definitionLists (newExtra (\<lambda>s. s)) plainSample = Inr (plainSample, newExtra (\<lambda>s. s))"
proof -
  note T = recognizers_total_and_idle_without_match[of plainSample "newExtra (\<lambda>s. s)"]
  from T[THEN conjunct1] plainSample_unmatched(1,2)
  have 1: "tables (newExtra (\<lambda>s. s)) plainSample = Inr (plainSample, newExtra (\<lambda>s. s))"
    by blast
  from T[THEN conjunct2, THEN conjunct1] plainSample_unmatched(3)
  have 2: "fencedCodeBlocks (newExtra (\<lambda>s. s)) plainSample = Inr (plainSample, newExtra (\<lambda>s. s))"
    by blast
  from T[THEN conjunct2, THEN conjunct2, THEN conjunct2, THEN conjunct1]
    plainSample_unmatched(4) plainSample_ends
  have 3: "definitionLists (newExtra (\<lambda>s. s)) plainSample = Inr (plainSample, newExtra (\<lambda>s. s))"
    by blast
  from 1 2 3 show ?thesis by blast
qed

text \<open>
  C8 as stated fails: in the text that consists of the code unit 3
  the pattern of the definition lists matches nowhere, with or without the sentinels,
  and \<^verbatim>\<open>definitionLists\<close> returns the empty text.
\<close>

theorem sentinel_removed_without_match:
  "\<not> re_test wholeList [ETX]
   \<and> \<not> re_test wholeList (addAnchors [ETX])
   \<and> (case definitionLists (newExtra (\<lambda>s. s)) [ETX] of
         Inr (t, e) \<Rightarrow> t = [] \<and> hashBlocks e = []
       | Inl _ \<Rightarrow> False)"
  by code_simp

section \<open>The pre-processing pass\<close>

lemma transform_total: "\<exists>t e. transform x self doc = Inr (t, e)"
  by (cases x)
    (simp_all add: all_ext_total tables_total fencedCodeBlocks_total definitionLists_total)

lemma transformLoop_total: "\<exists>t e. transformLoop ts self doc = Inr (t, e)"
proof (induction ts arbitrary: self doc)
  case Nil
  show ?case by simp
next
  case (Cons x ts)
  from transform_total[of x self doc] obtain t1 e1 where "transform x self doc = Inr (t1, e1)"
    by blast
  with Cons[of e1 t1] show ?case by simp
qed

lemma transform_unmatched:
  "unmatched x doc \<Longrightarrow> (x = DefinitionLists \<longrightarrow> sentinelFree doc) \<Longrightarrow>
   transform x self doc = Inr (doc, self)"
  by (cases x)
    (simp_all add: all_ext_def tables_no_match fencedCodeBlocks_no_match
      definitionLists_no_match removeAnchors_addAnchors sentinelFree_def)

lemma transformLoop_unmatched:
  "list_all (\<lambda>x. unmatched x doc) ts \<Longrightarrow> (DefinitionLists \<in> set ts \<longrightarrow> sentinelFree doc) \<Longrightarrow>
   transformLoop ts self doc = Inr (doc, self)"
  by (induction ts) (simp_all add: transform_unmatched)

lemma escapePair_id: "\<not> sublist [a, b] s \<Longrightarrow> escapePair a b out s = s"
proof (induction a b out s rule: escapePair.induct)
  case (3 a b out c d cs)
  from "3.prems" have n: "\<not> prefix [a, b] (c # d # cs)" "\<not> sublist [a, b] (d # cs)"
    by (simp_all add: sublist_Cons_right)
  from n(1) have ne: "\<not> (c = a \<and> d = b)" by auto
  from "3.IH"(2)[OF ne n(2)] ne show ?case by auto
qed simp_all

lemma processEscapes_id: "escapeFree doc \<Longrightarrow> processEscapes doc = doc"
  by (simp add: escapeFree_def processEscapes_def replace_all_pair escapePair_id)

lemma doConversion_newline:
  "\<exists>t e. transformLoop ts (self\<lparr>hashBlocks := []\<rparr>) (processEscapes doc) = Inr (t, e)
          \<and> doConversion self ts doc = Inr (t @ [LF], e)"
proof -
  from transformLoop_total[of ts "self\<lparr>hashBlocks := []\<rparr>" "processEscapes doc"]
  obtain t e where "transformLoop ts (self\<lparr>hashBlocks := []\<rparr>) (processEscapes doc) = Inr (t, e)"
    by blast
  then show ?thesis by (simp add: doConversion_def Let_def)
qed

lemma plainSample_escapeFree: "escapeFree plainSample"
  by (simp add: escapeFree_def plainSample_def sublist_Cons_right BSL_def)

text \<open>
  C9: the trailing line feed of the pre-processing pass. For every text and every list
  of transformations the loop over the transformations returns a text, and
  \<^verbatim>\<open>doConversion\<close> returns that text with one line feed after it. When the text has no
  escaped pipe or colon and none of the transformations finds its syntax in it, and
  when with the definition lists among the transformations the text does not begin
  with the code unit 2 nor end with the code unit 3, the result is the text itself
  with one line feed after it, and nothing is stored.
\<close>

theorem doConversion_appends_newline:
  "(\<exists>t e. transformLoop ts (self\<lparr>hashBlocks := []\<rparr>) (processEscapes doc) = Inr (t, e)
          \<and> doConversion self ts doc = Inr (t @ [LF], e))
   \<and> (escapeFree doc \<and> list_all (\<lambda>x. unmatched x doc) ts
        \<and> (DefinitionLists \<in> set ts \<longrightarrow> sentinelFree doc) \<longrightarrow>
        doConversion self ts doc = Inr (doc @ [LF], self\<lparr>hashBlocks := []\<rparr>))"
proof (intro conjI impI)
  show "\<exists>t e. transformLoop ts (self\<lparr>hashBlocks := []\<rparr>) (processEscapes doc) = Inr (t, e)
          \<and> doConversion self ts doc = Inr (t @ [LF], e)"
    by (rule doConversion_newline)
  show "doConversion self ts doc = Inr (doc @ [LF], self\<lparr>hashBlocks := []\<rparr>)"
    if "escapeFree doc \<and> list_all (\<lambda>x. unmatched x doc) ts
        \<and> (DefinitionLists \<in> set ts \<longrightarrow> sentinelFree doc)"
    using that by (simp add: doConversion_def Let_def processEscapes_id transformLoop_unmatched)
qed

theorem doConversion_appends_newline_witness:
  "doConversion (newExtra (\<lambda>s. s)) [All, DefinitionLists] plainSample
   = Inr (plainSample @ [LF], (newExtra (\<lambda>s. s))\<lparr>hashBlocks := []\<rparr>)"
proof -
  have "list_all (\<lambda>x. unmatched x plainSample) [All, DefinitionLists]"
    using plainSample_unmatched by simp
  moreover have "sentinelFree plainSample"
    using plainSample_ends by (simp add: sentinelFree_def)
  ultimately show ?thesis
    using doConversion_appends_newline[of "[All, DefinitionLists]" "newExtra (\<lambda>s. s)" plainSample,
      THEN conjunct2] plainSample_escapeFree
    by blast
qed

text \<open>
  C9 as stated fails in its second part: the text that consists of the
  code unit 3 has no escape and no syntax of the definition lists, and with the
  definition lists enabled the pass returns a line feed alone.
\<close>

theorem doConversion_drops_sentinel:
  "escapeFree [ETX]
   \<and> \<not> re_test wholeList [ETX]
   \<and> unmatched DefinitionLists [ETX]
   \<and> (case doConversion (newExtra (\<lambda>s. s)) [DefinitionLists] [ETX] of
         Inr (t, e) \<Rightarrow> t = [LF] \<and> hashBlocks e = []
       | Inl _ \<Rightarrow> False)"
proof -
  have "escapeFree [ETX]"
    by (simp add: escapeFree_def sublist_Cons_right)
  moreover have "\<not> re_test wholeList [ETX] \<and> unmatched DefinitionLists [ETX]
     \<and> (case doConversion (newExtra (\<lambda>s. s)) [DefinitionLists] [ETX] of
           Inr (t, e) \<Rightarrow> t = [LF] \<and> hashBlocks e = []
         | Inl _ \<Rightarrow> False)"
    by code_simp
  ultimately show ?thesis by blast
qed

end
